theory Spec2Isabelle
  imports Main "HOL-Library.Sublist"
begin

section \<open>String primitives of the host language\<close>

text \<open>
  The bot is written in Python and works on \<open>str\<close> values. A document, a line, a
  fragment and a category marker are all modelled as \<open>string\<close>, one \<open>char\<close> per code
  point (code points 0 to 255). Only four string methods are used by the code under study:
  \<open>s.split(sep)\<close>, \<open>s.replace(old, "")\<close>, \<open>s.strip()\<close> and \<open>s.rstrip('\n')\<close>.
\<close>

text \<open>
  \<open>s.split(sep)\<close> for a non-empty separator: the text is cut at the leftmost occurrence
  of \<open>sep\<close>, then at the leftmost occurrence in what follows, and so on. The result always
  has at least one element. (Python raises \<open>ValueError\<close> for an empty separator; the bot only
  splits at \<open>"\n"\<close> and at \<open>"]]"\<close>, and the model returns the text unsplit in that case.)
\<close>

function split_str :: "string \<Rightarrow> string \<Rightarrow> string list" where
  "split_str sep [] = [[]]"
| "split_str sep (c # cs) =
     (if sep \<noteq> [] \<and> prefix sep (c # cs)
      then [] # split_str sep (drop (length sep) (c # cs))
      else (case split_str sep cs of
              [] \<Rightarrow> [[c]]
            | p # ps \<Rightarrow> (c # p) # ps))"
  by pat_completeness auto
termination
  by (relation "measure (\<lambda>(sep, s). length s)") (auto simp: neq_Nil_conv)

text \<open>
  \<open>s.replace(old, "")\<close>: every occurrence of \<open>old\<close> found by a left-to-right scan that
  resumes after each match is deleted. An empty \<open>old\<close> leaves the text as it is.
\<close>

function replace_by_empty :: "string \<Rightarrow> string \<Rightarrow> string" where
  "replace_by_empty old [] = []"
| "replace_by_empty old (c # cs) =
     (if old \<noteq> [] \<and> prefix old (c # cs)
      then replace_by_empty old (drop (length old) (c # cs))
      else c # replace_by_empty old cs)"
  by pat_completeness auto
termination
  by (relation "measure (\<lambda>(old, s). length s)") (auto simp: neq_Nil_conv)

text \<open>
  The characters \<open>str.strip()\<close> removes: the code points below 256 that Python classifies
  as white space.
\<close>

definition is_space :: "char \<Rightarrow> bool" where
  "is_space c \<longleftrightarrow> c \<in> set [CHR 0x09, CHR 0x0A, CHR 0x0B, CHR 0x0C, CHR 0x0D,
                            CHR 0x1C, CHR 0x1D, CHR 0x1E, CHR 0x1F, CHR 0x20,
                            CHR 0x85, CHR 0xA0]"

definition lstrip :: "string \<Rightarrow> string" where
  "lstrip s = dropWhile is_space s"

definition rstrip :: "string \<Rightarrow> string" where
  "rstrip s = rev (dropWhile is_space (rev s))"

definition strip :: "string \<Rightarrow> string" where
  "strip s = rstrip (lstrip s)"

definition rstrip_nl :: "string \<Rightarrow> string" where
  "rstrip_nl s = rev (dropWhile (\<lambda>c. c = CHR 0x0A) (rev s))"

section \<open>The category extractor\<close>

text \<open>
  \<open>find_cat\<close> applies \<open>re.match\<close> with the pattern
  \<^verbatim>\<open>(.*)(\[\[Category\:([^\[\]]*)\]\])(.*)\<close>.
  Group 2, read at a fixed start position, is the literal \<open>[[Category:\<close>, then the longest
  run of characters other than \<open>[\<close> and \<open>]\<close> (possibly empty, possibly holding a newline),
  then the literal \<open>]]\<close>. Since the run cannot contain \<open>]\<close>, it is determined by the start
  position: \<open>cat_at\<close> returns the text of group 2 when the pattern of group 2 matches at the
  head of its argument.
\<close>

definition not_bracket :: "char \<Rightarrow> bool" where
  "not_bracket c \<longleftrightarrow> c \<noteq> CHR ''['' \<and> c \<noteq> CHR '']''"

definition cat_at :: "string \<Rightarrow> string option" where
  "cat_at s =
     (if prefix ''[[Category:'' s
      then (let rest = drop 11 s;
                name = takeWhile not_bracket rest
            in if prefix '']]'' (dropWhile not_bracket rest)
               then Some (''[[Category:'' @ name @ '']]'')
               else None)
      else None)"

text \<open>
  \<open>re.match\<close> anchors the pattern at the start of the text only. Group 1, \<open>(.*)\<close>, is
  greedy and \<open>.\<close> does not match a newline: the engine first lets it take every character
  up to the first newline (or the end), then gives characters back one at a time until
  group 2 matches where group 1 stops. Group 4, \<open>(.*)\<close>, matches whatever follows, so
  nothing is required after the marker. The result is therefore group 2 at the rightmost
  start position that is preceded by no newline; \<open>None\<close> when there is no such position.
\<close>

fun find_cat :: "string \<Rightarrow> string option" where
  "find_cat [] = None"
| "find_cat (c # cs) =
     (if c = CHR 0x0A then None
      else (case find_cat cs of
              Some m \<Rightarrow> Some m
            | None \<Rightarrow> cat_at (c # cs)))"

text \<open>
  \<open>split_into_cats\<close>: split the line at \<open>]]\<close> and put \<open>]]\<close> back at the end of every
  piece, the last one included.
\<close>

definition split_into_cats :: "string \<Rightarrow> string list" where
  "split_into_cats line = map (\<lambda>proto_cat. proto_cat @ '']]'') (split_str '']]'' line)"

section \<open>The move operation\<close>

text \<open>
  The variables of \<open>move_cats\<close> that change during the scan: the flag
  \<open>should_be_moving\<close> (false while the scan is in the trailing region), the list
  \<open>detected_categories\<close> and the text of the page, \<open>page.text\<close>.
\<close>

record scan_state =
  should_be_moving :: bool
  detected_categories :: "string list"
  page_text :: string

text \<open>
  One iteration of the inner loop, for one fragment \<open>potential_cat\<close> of \<open>line\<close>. The
  comparison \<open>line.strip() != detected_category\<close> is true when \<open>detected_category\<close> is
  \<open>None\<close>.
\<close>

definition frag_step :: "string \<Rightarrow> scan_state \<Rightarrow> string \<Rightarrow> scan_state" where
  "frag_step line st potential_cat =
     (let detected_category = find_cat potential_cat;
          st1 = (if Some (strip line) \<noteq> detected_category \<and> \<not> should_be_moving st
                 then st\<lparr>should_be_moving := True\<rparr> else st)
      in case detected_category of
           None \<Rightarrow> st1
         | Some cat \<Rightarrow>
             if should_be_moving st1
             then st1\<lparr>detected_categories := detected_categories st1 @ [cat],
                      page_text := replace_by_empty cat (page_text st1)\<rparr>
             else st1)"

text \<open>
  One iteration of the outer loop: the inner loop over all fragments but the last, then the
  test on the last fragment.
\<close>

definition line_step :: "scan_state \<Rightarrow> string \<Rightarrow> scan_state" where
  "line_step st line =
     (let potential_cats = split_into_cats line;
          st1 = foldl (frag_step line) st (butlast potential_cats)
      in if strip (last potential_cats) \<noteq> '']]'' \<and> \<not> should_be_moving st1
         then st1\<lparr>should_be_moving := True\<rparr> else st1)"

text \<open>
  The scan: the lines of the text as it was fetched, last line first, starting with the
  flag false, no category and the fetched text.
\<close>

definition scan :: "string \<Rightarrow> scan_state" where
  "scan text =
     foldl line_step
       \<lparr>should_be_moving = False, detected_categories = [], page_text = text\<rparr>
       (rev (split_str [CHR 0x0A] text))"

text \<open>The block appended at the end: a newline and the category, for each category.\<close>

definition attach :: "string list \<Rightarrow> string" where
  "attach cats = concat (map (\<lambda>cat. CHR 0x0A # cat) cats)"

text \<open>
  \<open>move_cats\<close>, as a function of the fetched text: the final value of \<open>page.text\<close> and
  whether \<open>page.save\<close> is called.
\<close>

definition move_cats :: "string \<Rightarrow> string \<times> bool" where
  "move_cats text =
     (let st = scan text;
          stripped = rstrip_nl (page_text st)
      in if length (detected_categories st) > 0
         then (stripped @ attach (detected_categories st), True)
         else (stripped, False))"

definition move_cats_text :: "string \<Rightarrow> string" where
  "move_cats_text text = fst (move_cats text)"


section \<open>Notions used to state the properties\<close>

text \<open>
  The text of a category marker with a given name. Group 2 of the pattern matches exactly
  the texts \<open>marker name\<close> where \<open>name\<close> holds neither \<open>[\<close> nor \<open>]\<close>.
\<close>

definition marker :: "string \<Rightarrow> string" where
  "marker name = ''[[Category:'' @ name @ '']]''"

text \<open>
  The successive states of the scan: the state after every iteration of the inner loop and
  after the test that ends every iteration of the outer loop, in the order the code reaches
  them.
\<close>

fun frag_trace :: "string \<Rightarrow> scan_state \<Rightarrow> string list \<Rightarrow> scan_state list" where
  "frag_trace line st [] = []"
| "frag_trace line st (f # fs) =
     frag_step line st f # frag_trace line (frag_step line st f) fs"

definition line_trace :: "scan_state \<Rightarrow> string \<Rightarrow> scan_state list" where
  "line_trace st line =
     frag_trace line st (butlast (split_into_cats line)) @ [line_step st line]"

fun doc_trace :: "scan_state \<Rightarrow> string list \<Rightarrow> scan_state list" where
  "doc_trace st [] = []"
| "doc_trace st (l # ls) = line_trace st l @ doc_trace (line_step st l) ls"

text \<open>The values the flag takes during the scan of a text, its initial value first.\<close>

definition flag_trace :: "string \<Rightarrow> bool list" where
  "flag_trace text =
     False # map should_be_moving
       (doc_trace \<lparr>should_be_moving = False, detected_categories = [], page_text = text\<rparr>
          (rev (split_str [CHR 0x0A] text)))"

text \<open>
  The number of changes from false to true (\<open>flips\<close>) and from true to false
  (\<open>resets\<close>) between consecutive values.
\<close>

definition flips :: "bool list \<Rightarrow> nat" where
  "flips bs = length (filter (\<lambda>(a, b). \<not> a \<and> b) (zip bs (tl bs)))"

definition resets :: "bool list \<Rightarrow> nat" where
  "resets bs = length (filter (\<lambda>(a, b). a \<and> \<not> b) (zip bs (tl bs)))"

text \<open>
  The text after a sequence of replacements, one per category, in the order of the list.
\<close>

definition removes :: "string list \<Rightarrow> string \<Rightarrow> string" where
  "removes cats t = foldl (\<lambda>t cat. replace_by_empty cat t) t cats"

text \<open>
  The names a marker found on one line can have: no bracket and no newline.
\<close>

definition line_name :: "string \<Rightarrow> bool" where
  "line_name name \<longleftrightarrow> list_all not_bracket name \<and> CHR 0x0A \<notin> set name"

text \<open>
  The texts \<open>find_cat\<close> can return for a fragment of a line: a marker and nothing else,
  with no newline in it.
\<close>

definition is_line_marker :: "string \<Rightarrow> bool" where
  "is_line_marker m \<longleftrightarrow> cat_at m = Some m \<and> CHR 0x0A \<notin> set m"

text \<open>
  The categories that the fragments of a line yield, in the order of the fragments (the last
  fragment is left out, as in the inner loop).
\<close>

definition line_cats :: "string \<Rightarrow> string list" where
  "line_cats line = List.map_filter find_cat (butlast (split_into_cats line))"

text \<open>
  A line is trailing for the scan when it holds white space only, or a category marker with
  nothing but white space around it.
\<close>

definition trailing_line :: "string \<Rightarrow> bool" where
  "trailing_line line \<longleftrightarrow> list_all is_space line \<or> is_line_marker (strip line)"

text \<open>
  Lines with flat brackets: the brackets of the line are balanced and not nested. Such a line
  is a sequence of plain characters, of groups \<open>[...]\<close> and of groups \<open>[[...]]\<close>, where
  no group holds a bracket inside. Links such as \<open>[[Foo|bar]]\<close> and \<open>[http://x y]\<close> and
  category markers are groups of this kind. \<open>tokens\<close> reads a line from left to right and
  returns its groups and plain characters, or \<open>None\<close> when a bracket is not closed, not
  opened, or stands inside a group.
\<close>

datatype token = Text string | Single string | Double string

fun render :: "token \<Rightarrow> string" where
  "render (Text t) = t"
| "render (Single inner) = CHR ''['' # inner @ '']''"
| "render (Double inner) = ''[['' @ inner @ '']]''"

fun token_ok :: "token \<Rightarrow> bool" where
  "token_ok (Text t) = list_all not_bracket t"
| "token_ok (Single inner) = list_all not_bracket inner"
| "token_ok (Double inner) = list_all not_bracket inner"

function tokens :: "string \<Rightarrow> token list option" where
  "tokens [] = Some []"
| "tokens (c # cs) =
     (if c = CHR ''['' then
        (if prefix ''['' cs then
           (if prefix '']]'' (dropWhile not_bracket (tl cs))
            then map_option ((#) (Double (takeWhile not_bracket (tl cs))))
                   (tokens (drop 2 (dropWhile not_bracket (tl cs))))
            else None)
         else
           (if prefix '']'' (dropWhile not_bracket cs)
            then map_option ((#) (Single (takeWhile not_bracket cs)))
                   (tokens (drop 1 (dropWhile not_bracket cs)))
            else None))
      else if c = CHR '']'' then None
      else map_option ((#) (Text [c])) (tokens cs))"
  by pat_completeness auto
termination
proof (relation "measure length")
  show "wf (measure length)" by simp
next
  fix c :: char and cs :: string
  have "length (dropWhile not_bracket (tl cs)) \<le> length (tl cs)" by (rule length_dropWhile_le)
  then show "(drop 2 (dropWhile not_bracket (tl cs)), c # cs) \<in> measure length" by simp
next
  fix c :: char and cs :: string
  have "length (dropWhile not_bracket cs) \<le> length cs" by (rule length_dropWhile_le)
  then show "(drop 1 (dropWhile not_bracket cs), c # cs) \<in> measure length" by simp
next
  fix c :: char and cs :: string
  show "(cs, c # cs) \<in> measure length" by simp
qed

definition flat_brackets :: "string \<Rightarrow> bool" where
  "flat_brackets line \<longleftrightarrow> tokens line \<noteq> None"

text \<open>A list of flags that starts at \<open>b\<close> and never goes from true to false.\<close>

fun rising :: "bool \<Rightarrow> bool list \<Rightarrow> bool" where
  "rising b [] = True"
| "rising b (x # xs) = ((b \<longrightarrow> x) \<and> rising x xs)"

section \<open>The category extractor: what the pattern matches\<close>

lemma takeWhile_name:
  "list_all not_bracket name \<Longrightarrow> takeWhile not_bracket (name @ CHR '']'' # rest) = name"
  by (induction name) (auto simp: not_bracket_def)

lemma dropWhile_name:
  "list_all not_bracket name \<Longrightarrow> dropWhile not_bracket (name @ CHR '']'' # rest) = CHR '']'' # rest"
  by (induction name) (auto simp: not_bracket_def)

lemma cat_at_marker:
  "list_all not_bracket name \<Longrightarrow> cat_at (marker name @ rest) = Some (marker name)"
  by (simp add: cat_at_def marker_def takeWhile_name dropWhile_name)

lemma cat_at_SomeD:
  assumes "cat_at s = Some m"
  shows "\<exists>name rest. s = marker name @ rest \<and> list_all not_bracket name \<and> m = marker name"
proof -
  from assms have p: "prefix ''[[Category:'' s"
    by (auto simp: cat_at_def split: if_splits)
  define r where "r = drop 11 s"
  from p have s: "s = ''[[Category:'' @ r"
    by (auto simp: r_def prefix_def)
  from assms p have q: "prefix '']]'' (dropWhile not_bracket r)"
    and m: "m = ''[[Category:'' @ takeWhile not_bracket r @ '']]''"
    by (auto simp: cat_at_def Let_def r_def split: if_splits)
  from q obtain rest where d: "dropWhile not_bracket r = '']]'' @ rest"
    by (auto simp: prefix_def)
  have "r = takeWhile not_bracket r @ dropWhile not_bracket r" by simp
  with d have "r = takeWhile not_bracket r @ '']]'' @ rest" by simp
  with s have "s = marker (takeWhile not_bracket r) @ rest"
    by (simp add: marker_def)
  moreover have "list_all not_bracket (takeWhile not_bracket r)"
    by (simp add: list_all_iff) (meson set_takeWhileD)
  ultimately show ?thesis using m by (auto simp: marker_def)
qed

lemma cat_at_not_open: "c \<noteq> CHR ''['' \<Longrightarrow> cat_at (c # cs) = None"
  by (simp add: cat_at_def)

lemma cat_at_Nil: "cat_at [] = None"
  by (simp add: cat_at_def)

lemma find_cat_skip:
  "c \<noteq> CHR ''['' \<Longrightarrow> c \<noteq> CHR 0x0A \<Longrightarrow> find_cat (c # cs) = find_cat cs"
  by (simp add: cat_at_not_open split: option.splits)

lemma find_cat_skip_list:
  "\<forall>c\<in>set a. c \<noteq> CHR ''['' \<and> c \<noteq> CHR 0x0A \<Longrightarrow> find_cat (a @ rest) = find_cat rest"
  by (induction a) (simp_all add: find_cat_skip del: find_cat.simps)

lemma find_cat_pre:
  "CHR 0x0A \<notin> set pre \<Longrightarrow> find_cat rest = Some m \<Longrightarrow> find_cat (pre @ rest) = Some m"
  by (induction pre) auto

lemma find_cat_at_marker:
  assumes "list_all not_bracket name" "CHR 0x0A \<notin> set name"
  shows "find_cat (marker name @ post) =
           (case find_cat post of Some m \<Rightarrow> Some m | None \<Rightarrow> Some (marker name))"
proof -
  have inner: "find_cat (''Category:'' @ name @ '']]'' @ post) = find_cat post"
    using assms find_cat_skip_list[of "''Category:'' @ name @ '']]''" post]
    by (auto simp: list_all_iff not_bracket_def)
  have c1: "cat_at (''[Category:'' @ name @ '']]'' @ post) = None"
    by (simp add: cat_at_def)
  have c0: "cat_at (marker name @ post) = Some (marker name)"
    using assms(1) by (rule cat_at_marker)
  have "find_cat (''[Category:'' @ name @ '']]'' @ post) = find_cat post"
    using inner c1 by (simp split: option.splits)
  then show ?thesis
    using c0 by (simp add: marker_def split: option.splits)
qed

lemma find_cat_embedded:
  assumes "CHR 0x0A \<notin> set pre" "list_all not_bracket name" "CHR 0x0A \<notin> set name"
  shows "find_cat (pre @ marker name @ post) =
           (case find_cat post of Some m \<Rightarrow> Some m | None \<Rightarrow> Some (marker name))"
proof -
  obtain m where m: "find_cat (marker name @ post) = Some m"
    using find_cat_at_marker[OF assms(2,3), of post] by (auto split: option.splits)
  from find_cat_pre[OF assms(1) m] m find_cat_at_marker[OF assms(2,3), of post]
  show ?thesis by simp
qed

lemma find_cat_SomeD:
  "find_cat s = Some m \<Longrightarrow>
     \<exists>pre c post. s = pre @ c # post \<and> CHR 0x0A \<notin> set pre \<and> cat_at (c # post) = Some m \<and> find_cat post = None"
proof (induction s)
  case Nil
  then show ?case by simp
next
  case (Cons a s)
  from Cons.prems have nl: "a \<noteq> CHR 0x0A" by (auto split: if_splits)
  show ?case
  proof (cases "find_cat s")
    case None
    with Cons.prems nl have "cat_at (a # s) = Some m" by simp
    with None show ?thesis by (intro exI[of _ "[]"] exI[of _ a] exI[of _ s]) simp
  next
    case (Some m')
    with Cons.prems nl have "m' = m" by simp
    with Some Cons.IH obtain pre c post where
      "s = pre @ c # post" "CHR 0x0A \<notin> set pre" "cat_at (c # post) = Some m" "find_cat post = None"
      by blast
    with nl show ?thesis
      by (intro exI[of _ "a # pre"] exI[of _ c] exI[of _ post]) simp
  qed
qed

section \<open>Steps of the scan\<close>

lemma frag_step_flag:
  "should_be_moving (frag_step line st frag) \<longleftrightarrow>
     should_be_moving st \<or> find_cat frag \<noteq> Some (strip line)"
  by (auto simp: frag_step_def Let_def split: option.splits)


lemma frag_step_trailing:
  "\<not> should_be_moving (frag_step line st frag) \<Longrightarrow> frag_step line st frag = st"
  by (auto simp: frag_step_def Let_def split: option.splits if_splits)

lemma frag_step_None:
  "find_cat frag = None \<Longrightarrow> frag_step line st frag = st\<lparr>should_be_moving := True\<rparr>"
  by (cases "should_be_moving st") (simp_all add: frag_step_def)

lemma foldl_frag_step_mono:
  "should_be_moving st \<Longrightarrow> should_be_moving (foldl (frag_step line) st fs)"
  by (induction fs arbitrary: st) (simp_all add: frag_step_flag)

lemma line_step_mono: "should_be_moving st \<Longrightarrow> should_be_moving (line_step st line)"
  by (simp add: line_step_def Let_def foldl_frag_step_mono)

lemma frag_trace_last:
  "last (st # frag_trace line st fs) = foldl (frag_step line) st fs"
  by (induction fs arbitrary: st) simp_all

lemma line_trace_last: "last (line_trace st line) = line_step st line"
  by (simp add: line_trace_def)

lemma doc_trace_last: "last (st # doc_trace st ls) = foldl line_step st ls"
proof (induction ls arbitrary: st)
  case Nil
  then show ?case by simp
next
  case (Cons l ls)
  have "last (st # doc_trace st (l # ls)) = last (line_trace st l @ doc_trace (line_step st l) ls)"
    by (simp add: line_trace_def)
  also have "\<dots> = last (line_step st l # doc_trace (line_step st l) ls)"
    by (simp add: line_trace_def)
  finally show ?case using Cons.IH by simp
qed

lemma flag_trace_last: "last (flag_trace text) = should_be_moving (scan text)"
proof -
  let ?st = "\<lparr>should_be_moving = False, detected_categories = [], page_text = text\<rparr>"
  let ?ls = "rev (split_str [CHR 0x0A] text)"
  have "last (flag_trace text) = last (map should_be_moving (?st # doc_trace ?st ?ls))"
    by (simp add: flag_trace_def)
  also have "\<dots> = should_be_moving (last (?st # doc_trace ?st ?ls))"
    by (rule last_map) simp
  finally show ?thesis by (simp only: doc_trace_last scan_def)
qed

lemma rising_append:
  "rising b (xs @ ys) \<longleftrightarrow> rising b xs \<and> rising (last (b # xs)) ys"
  by (induction xs arbitrary: b) auto

lemma frag_step_mono: "should_be_moving st \<longrightarrow> should_be_moving (frag_step line st frag)"
  by (simp add: frag_step_flag)

lemma rising_frag_trace:
  "rising (should_be_moving st) (map should_be_moving (frag_trace line st fs))"
  by (induction fs arbitrary: st) (simp_all add: frag_step_mono)

lemma line_step_after_frags:
  "should_be_moving (foldl (frag_step line) st (butlast (split_into_cats line))) \<Longrightarrow>
     should_be_moving (line_step st line)"
  by (simp add: line_step_def Let_def)

lemma rising_line_trace:
  "rising (should_be_moving st) (map should_be_moving (line_trace st line))"
proof -
  let ?fs = "butlast (split_into_cats line)"
  have "last (should_be_moving st # map should_be_moving (frag_trace line st ?fs))
          = should_be_moving (foldl (frag_step line) st ?fs)"
    using frag_trace_last[of st line ?fs] last_map[of "st # frag_trace line st ?fs" should_be_moving]
    by simp
  then show ?thesis
    using rising_frag_trace[of st line ?fs] line_step_after_frags[of line st]
    by (simp add: line_trace_def rising_append del: last.simps)
qed

lemma rising_doc_trace:
  "rising (should_be_moving st) (map should_be_moving (doc_trace st ls))"
proof (induction ls arbitrary: st)
  case Nil
  then show ?case by simp
next
  case (Cons l ls)
  have "last (should_be_moving st # map should_be_moving (line_trace st l))
          = should_be_moving (line_step st l)"
    by (simp add: line_trace_def)
  then show ?case
    using rising_line_trace[of st l] Cons.IH[of "line_step st l"]
    by (simp add: rising_append del: last.simps)
qed

lemma rising_resets: "rising b xs \<Longrightarrow> resets (b # xs) = 0"
  by (induction xs arbitrary: b) (auto simp: resets_def)

lemma rising_last: "rising b xs \<Longrightarrow> b \<Longrightarrow> last (b # xs)"
  by (induction xs arbitrary: b) auto

lemma rising_flips:
  "rising b xs \<Longrightarrow> flips (b # xs) = (if \<not> b \<and> last (b # xs) then 1 else 0)"
proof (induction xs arbitrary: b)
  case Nil
  then show ?case by (simp add: flips_def)
next
  case (Cons x xs)
  from Cons.prems have r: "rising x xs" and bx: "b \<longrightarrow> x" by simp_all
  have "flips (b # x # xs) = (if \<not> b \<and> x then 1 else 0) + flips (x # xs)"
    by (simp add: flips_def)
  with Cons.IH[OF r] bx rising_last[OF r] show ?case by auto
qed

section \<open>Facts about the string primitives\<close>

lemma marker_not_Nil: "marker name \<noteq> []"
  by (simp add: marker_def)

lemma marker_Cons: "marker name = CHR ''['' # CHR ''['' # ''Category:'' @ name @ '']]''"
  by (simp add: marker_def)

lemma marker_no_newline:
  "CHR 0x0A \<notin> set name \<Longrightarrow> CHR 0x0A \<notin> set (marker name)"
  by (simp add: marker_def)

lemma marker_prefix_hd: "prefix us (marker name) \<Longrightarrow> us \<noteq> [] \<Longrightarrow> hd us = CHR ''[''"
  by (cases us) (simp_all add: marker_Cons)

lemma marker_split_hd: "marker name = a @ us \<Longrightarrow> a \<noteq> [] \<Longrightarrow> \<exists>a'. a = CHR ''['' # a'"
  by (cases a) (simp_all add: marker_Cons)

lemma marker_inner_no_open:
  "list_all not_bracket name \<Longrightarrow> CHR ''['' \<notin> set (''Category:'' @ name @ '']]'')"
  by (auto simp: list_all_iff not_bracket_def)

lemma set_append_right: "xs @ ys = zs \<Longrightarrow> set ys \<subseteq> set zs"
  by auto

text \<open>A marker does not overlap a later copy of itself.\<close>

lemma marker_unbordered:
  assumes n: "list_all not_bracket name"
    and m: "marker name = a @ us" and a: "a \<noteq> []" and us: "us \<noteq> []"
    and p: "prefix us (marker name)"
  shows False
proof -
  from p us have hu: "hd us = CHR ''[''" by (rule marker_prefix_hd)
  from m a obtain a' where a': "a = CHR ''['' # a'"
    using marker_split_hd by blast
  show False
  proof (cases a')
    case Nil
    with m a' have "us = CHR ''['' # ''Category:'' @ name @ '']]''"
      by (simp add: marker_Cons)
    with p show False by (simp add: marker_Cons)
  next
    case (Cons x a'')
    with m a' have "a'' @ us = ''Category:'' @ name @ '']]''"
      by (simp add: marker_Cons)
    then have "set us \<subseteq> set (''Category:'' @ name @ '']]'')"
      by (rule set_append_right)
    moreover note marker_inner_no_open[OF n]
    moreover from us hu have "CHR ''['' \<in> set us"
      by (cases us) auto
    ultimately show False by blast
  qed
qed

lemma prefix_after_unbordered:
  assumes nb: "\<And>a us. m = a @ us \<Longrightarrow> a \<noteq> [] \<Longrightarrow> us \<noteq> [] \<Longrightarrow> prefix us m \<Longrightarrow> False"
    and p: "prefix m (a @ m @ b)" and a: "a \<noteq> []"
  shows "prefix m a"
proof (rule ccontr)
  assume np: "\<not> prefix m a"
  from p have "prefix m a \<or> (\<exists>us. m = a @ us \<and> prefix us (m @ b))"
    by (simp only: prefix_append)
  with np obtain us where us: "m = a @ us" and pu: "prefix us (m @ b)"
    by blast
  have une: "us \<noteq> []"
  proof
    assume "us = []"
    with us have "m = a" by simp
    with np show False by simp
  qed
  from pu have "prefix us m \<or> (\<exists>vs. us = m @ vs \<and> prefix vs b)"
    by (simp only: prefix_append)
  then have "prefix us m"
  proof
    assume "prefix us m"
    then show ?thesis .
  next
    assume "\<exists>vs. us = m @ vs \<and> prefix vs b"
    then obtain vs where "us = m @ vs" by blast
    then have "length us = length m + length vs" by simp
    moreover from us have "length m = length a + length us" by simp
    ultimately have "length a = 0" by arith
    with a show ?thesis by simp
  qed
  from nb[OF us a une this] show False .
qed

lemma marker_prefix_after:
  assumes n: "list_all not_bracket name"
    and p: "prefix (marker name) (a @ marker name @ b)" and a: "a \<noteq> []"
  shows "prefix (marker name) a"
proof (rule prefix_after_unbordered)
  fix a us
  assume "marker name = a @ us" "a \<noteq> []" "us \<noteq> []" "prefix us (marker name)"
  with n show False by (rule marker_unbordered)
next
  show "prefix (marker name) (a @ marker name @ b)" by (rule p)
next
  show "a \<noteq> []" by (rule a)
qed

lemma replace_self_append:
  "m \<noteq> [] \<Longrightarrow> replace_by_empty m (m @ b) = replace_by_empty m b"
  by (cases m) simp_all

lemma replace_not_prefix:
  "\<not> prefix m (c # cs) \<Longrightarrow> replace_by_empty m (c # cs) = c # replace_by_empty m cs"
  by simp

lemma replace_prefix:
  "m \<noteq> [] \<Longrightarrow> prefix m (c # cs) \<Longrightarrow>
     replace_by_empty m (c # cs) = replace_by_empty m (drop (length m) (c # cs))"
  by simp

text \<open>Every occurrence of a marker is deleted, whatever surrounds it.\<close>

lemma prefix_drop_eq: "prefix m xs \<Longrightarrow> xs = m @ drop (length m) xs"
  by (auto simp: prefix_def)

lemma replace_occurrence:
  assumes ne: "m \<noteq> []"
    and nb: "\<And>a us. m = a @ us \<Longrightarrow> a \<noteq> [] \<Longrightarrow> us \<noteq> [] \<Longrightarrow> prefix us m \<Longrightarrow> False"
  shows "replace_by_empty m (a @ m @ b) = replace_by_empty m a @ replace_by_empty m b"
proof (induction a rule: length_induct)
  case (1 a)
  show ?case
  proof (cases a)
    case Nil
    then show ?thesis using replace_self_append[OF ne] by simp
  next
    case (Cons c cs)
    show ?thesis
    proof (cases "prefix m (c # cs)")
      case True
      define r where "r = drop (length m) (c # cs)"
      from True have a_eq: "a = m @ r"
        unfolding r_def Cons by (rule prefix_drop_eq)
      then have "length a = length m + length r" by simp
      with ne have "length r < length a" by simp
      with 1 have ih: "replace_by_empty m (r @ m @ b) = replace_by_empty m r @ replace_by_empty m b"
        by blast
      have "replace_by_empty m (a @ m @ b) = replace_by_empty m (m @ (r @ m @ b))"
        by (simp add: a_eq)
      also have "\<dots> = replace_by_empty m (r @ m @ b)"
        by (rule replace_self_append[OF ne])
      also note ih
      also have "replace_by_empty m r = replace_by_empty m a"
        unfolding a_eq by (rule replace_self_append[OF ne, symmetric])
      finally show ?thesis .
    next
      case False
      have np: "\<not> prefix m (c # (cs @ m @ b))"
      proof
        assume "prefix m (c # (cs @ m @ b))"
        then have pm: "prefix m ((c # cs) @ m @ b)" by simp
        have "prefix m (c # cs)"
        proof (rule prefix_after_unbordered)
          fix a us
          assume "m = a @ us" "a \<noteq> []" "us \<noteq> []" "prefix us m"
          then show False by (rule nb)
        next
          show "prefix m ((c # cs) @ m @ b)" by (rule pm)
        next
          show "c # cs \<noteq> []" by simp
        qed
        with False show False by simp
      qed
      have "length cs < length a" by (simp add: Cons)
      with 1 have ih: "replace_by_empty m (cs @ m @ b) = replace_by_empty m cs @ replace_by_empty m b"
        by blast
      have "replace_by_empty m (a @ m @ b) = c # replace_by_empty m (cs @ m @ b)"
        using np by (simp add: Cons)
      also have "\<dots> = (c # replace_by_empty m cs) @ replace_by_empty m b"
        by (simp add: ih)
      also have "c # replace_by_empty m cs = replace_by_empty m a"
        using False by (simp add: Cons)
      finally show ?thesis .
    qed
  qed
qed

lemma replace_marker_occurrence:
  assumes n: "list_all not_bracket name"
  shows "replace_by_empty (marker name) (a @ marker name @ b)
           = replace_by_empty (marker name) a @ replace_by_empty (marker name) b"
proof (rule replace_occurrence)
  show "marker name \<noteq> []" by (rule marker_not_Nil)
next
  fix a us
  assume "marker name = a @ us" "a \<noteq> []" "us \<noteq> []" "prefix us (marker name)"
  with n show False by (rule marker_unbordered)
qed

lemma replace_absent: "\<not> sublist m s \<Longrightarrow> replace_by_empty m s = s"
proof (induction s)
  case Nil
  then show ?case by simp
next
  case (Cons c cs)
  from Cons.prems have "\<not> prefix m (c # cs)" and "\<not> sublist m cs"
    by (simp_all add: sublist_Cons_right)
  with Cons.IH show ?case by simp
qed

lemma find_cat_is_marker:
  assumes "find_cat frag = Some m"
  shows "\<exists>name. m = marker name \<and> list_all not_bracket name"
proof -
  from find_cat_SomeD[OF assms] obtain pre c post where "cat_at (c # post) = Some m"
    by blast
  from cat_at_SomeD[OF this] show ?thesis by blast
qed

section \<open>Lines\<close>

lemma split_str_not_Nil: "split_str sep s \<noteq> []"
  by (induction sep s rule: split_str.induct) (auto split: list.splits)

lemma split_char_eq: "split_str [c] (c # xs) = [] # split_str [c] xs"
  by simp

lemma split_char_neq:
  "x \<noteq> c \<Longrightarrow> split_str [c] (x # xs) = (x # hd (split_str [c] xs)) # tl (split_str [c] xs)"
  using split_str_not_Nil[of "[c]" xs] by (cases "split_str [c] xs") auto

lemma split_char_append:
  "split_str [c] (a @ c # b) = split_str [c] a @ split_str [c] b"
proof (induction a)
  case Nil
  show ?case by simp
next
  case (Cons x a)
  show ?case
  proof (cases "x = c")
    case True
    with Cons show ?thesis by simp
  next
    case False
    have ne: "split_str [c] a \<noteq> []" by (rule split_str_not_Nil)
    from False have "split_str [c] ((x # a) @ c # b)
        = (x # hd (split_str [c] (a @ c # b))) # tl (split_str [c] (a @ c # b))"
      using split_char_neq[of x c "a @ c # b"] by simp
    also have "\<dots> = (x # hd (split_str [c] a)) # tl (split_str [c] a) @ split_str [c] b"
      using ne by (simp add: Cons.IH)
    also have "\<dots> = split_str [c] (x # a) @ split_str [c] b"
      using False split_char_neq[of x c a] by simp
    finally show ?thesis .
  qed
qed

lemma split_char_absent: "c \<notin> set a \<Longrightarrow> split_str [c] a = [a]"
proof (induction a)
  case Nil
  show ?case by simp
next
  case (Cons x a)
  then have "x \<noteq> c" and "split_str [c] a = [a]" by auto
  then show ?case using split_char_neq[of x c a] by simp
qed

lemma split_char_lines: "l \<in> set (split_str [c] s) \<Longrightarrow> c \<notin> set l"
proof (induction s arbitrary: l)
  case Nil
  then show ?case by simp
next
  case (Cons x s)
  show ?case
  proof (cases "x = c")
    case True
    with Cons show ?thesis by auto
  next
    case False
    have ne: "split_str [c] s \<noteq> []" by (rule split_str_not_Nil)
    from Cons.prems False have "l = x # hd (split_str [c] s) \<or> l \<in> set (tl (split_str [c] s))"
      by (simp add: split_char_neq del: split_str.simps)
    then show ?thesis
    proof
      assume "l = x # hd (split_str [c] s)"
      moreover have "c \<notin> set (hd (split_str [c] s))"
        using Cons.IH ne by simp
      ultimately show ?thesis using False by simp
    next
      assume "l \<in> set (tl (split_str [c] s))"
      then have "l \<in> set (split_str [c] s)" by (rule list.set_sel(2)[OF ne])
      then show ?thesis by (rule Cons.IH)
    qed
  qed
qed

lemma split_str_subset: "p \<in> set (split_str sep s) \<Longrightarrow> set p \<subseteq> set s"
proof (induction sep s arbitrary: p rule: split_str.induct)
  case (1 sep)
  then show ?case by simp
next
  case (2 sep c cs)
  show ?case
  proof (cases "sep \<noteq> [] \<and> prefix sep (c # cs)")
    case True
    with "2.prems" have "p = [] \<or> p \<in> set (split_str sep (drop (length sep) (c # cs)))"
      by auto
    then show ?thesis
    proof
      assume "p = []" then show ?thesis by simp
    next
      assume "p \<in> set (split_str sep (drop (length sep) (c # cs)))"
      with "2.IH"(1) True have "set p \<subseteq> set (drop (length sep) (c # cs))" by blast
      then show ?thesis using set_drop_subset by fastforce
    qed
  next
    case False
    obtain q qs where q: "split_str sep cs = q # qs"
      using split_str_not_Nil[of sep cs] by (cases "split_str sep cs") auto
    with "2.prems" False have "p = c # q \<or> p \<in> set qs" by auto
    then show ?thesis
    proof
      assume "p = c # q"
      moreover have "set q \<subseteq> set cs" using "2.IH"(2) False q by auto
      ultimately show ?thesis by auto
    next
      assume "p \<in> set qs"
      then have "set p \<subseteq> set cs" using "2.IH"(2) False q by auto
      then show ?thesis by auto
    qed
  qed
qed

lemma split_attach:
  "\<forall>m\<in>set cats. CHR 0x0A \<notin> set m \<Longrightarrow>
     split_str [CHR 0x0A] (a @ attach cats) = split_str [CHR 0x0A] a @ cats"
proof (induction cats arbitrary: a)
  case Nil
  then show ?case by (simp add: attach_def)
next
  case (Cons m cats)
  have "a @ attach (m # cats) = a @ CHR 0x0A # (m @ attach cats)"
    by (simp add: attach_def)
  then have "split_str [CHR 0x0A] (a @ attach (m # cats))
       = split_str [CHR 0x0A] a @ split_str [CHR 0x0A] (m @ attach cats)"
    by (simp only: split_char_append)
  also have "split_str [CHR 0x0A] (m @ attach cats) = split_str [CHR 0x0A] m @ cats"
    using Cons by simp
  also have "split_str [CHR 0x0A] m = [m]"
    using Cons.prems by (simp add: split_char_absent del: split_str.simps)
  finally show ?case by simp
qed

section \<open>Trailing newlines\<close>

lemma rstrip_nl_decomp: "\<exists>k. s = rstrip_nl s @ replicate k (CHR 0x0A)"
proof -
  let ?P = "\<lambda>c. c = CHR 0x0A"
  have "rev s = takeWhile ?P (rev s) @ dropWhile ?P (rev s)" by simp
  then have "s = rev (dropWhile ?P (rev s)) @ rev (takeWhile ?P (rev s))"
    by (metis rev_append rev_rev_ident)
  moreover have "rev (takeWhile ?P (rev s)) = replicate (length (takeWhile ?P (rev s))) (CHR 0x0A)"
    by (intro replicate_eqI) (auto dest: set_takeWhileD)
  ultimately show ?thesis unfolding rstrip_nl_def by metis
qed

lemma rstrip_nl_no_newline_end: "\<not> suffix [CHR 0x0A] (rstrip_nl s)"
proof
  let ?P = "\<lambda>c. c = CHR 0x0A"
  assume "suffix [CHR 0x0A] (rstrip_nl s)"
  then have "prefix [CHR 0x0A] (dropWhile ?P (rev s))"
    by (simp add: rstrip_nl_def suffix_to_prefix)
  then obtain r where "dropWhile ?P (rev s) = CHR 0x0A # r"
    by (auto simp: prefix_def)
  then show False using hd_dropWhile[of ?P "rev s"] by auto
qed

lemma dropWhile_replicate_eq:
  "dropWhile (\<lambda>c. c = x) (replicate k x @ xs) = dropWhile (\<lambda>c. c = x) xs"
  by (induction k) simp_all

lemma rstrip_nl_append_newlines: "rstrip_nl (s @ replicate k (CHR 0x0A)) = rstrip_nl s"
  by (simp add: rstrip_nl_def dropWhile_replicate_eq)

lemma rstrip_nl_id: "\<not> suffix [CHR 0x0A] s \<Longrightarrow> rstrip_nl s = s"
proof -
  assume ns: "\<not> suffix [CHR 0x0A] s"
  obtain k where k: "s = rstrip_nl s @ replicate k (CHR 0x0A)"
    using rstrip_nl_decomp by blast
  show ?thesis
  proof (cases k)
    case 0
    with k show ?thesis by simp
  next
    case (Suc j)
    have "replicate (Suc j) (CHR 0x0A) = replicate j (CHR 0x0A) @ [CHR 0x0A]"
      by (simp add: replicate_append_same)
    with k Suc have "s = (rstrip_nl s @ replicate j (CHR 0x0A)) @ [CHR 0x0A]" by simp
    then have "suffix [CHR 0x0A] s" by (metis suffixI)
    with ns show ?thesis by simp
  qed
qed

lemma split_append_newlines:
  "split_str [CHR 0x0A] (s @ replicate k (CHR 0x0A)) = split_str [CHR 0x0A] s @ replicate k []"
proof (induction k)
  case 0
  show ?case by simp
next
  case (Suc k)
  have "s @ replicate (Suc k) (CHR 0x0A) = (s @ replicate k (CHR 0x0A)) @ CHR 0x0A # []"
    by (simp add: replicate_append_same)
  then have "split_str [CHR 0x0A] (s @ replicate (Suc k) (CHR 0x0A))
      = split_str [CHR 0x0A] (s @ replicate k (CHR 0x0A)) @ split_str [CHR 0x0A] []"
    by (simp only: split_char_append)
  with Suc show ?case by (simp add: replicate_append_same)
qed

section \<open>Markers found on a line\<close>

lemma is_line_marker_iff:
  "is_line_marker m \<longleftrightarrow> (\<exists>name. m = marker name \<and> line_name name)"
proof
  assume a: "is_line_marker m"
  then have "cat_at m = Some m" and nl: "CHR 0x0A \<notin> set m"
    by (simp_all add: is_line_marker_def)
  from cat_at_SomeD[OF this(1)] obtain name rest where
    "m = marker name @ rest" "list_all not_bracket name" "m = marker name" by blast
  with nl show "\<exists>name. m = marker name \<and> line_name name"
    by (auto simp: line_name_def marker_def)
next
  assume "\<exists>name. m = marker name \<and> line_name name"
  then obtain name where m: "m = marker name" and n: "line_name name" by blast
  from n have "cat_at (marker name @ []) = Some (marker name)"
    by (intro cat_at_marker) (simp add: line_name_def)
  with m n show "is_line_marker m"
    by (simp add: is_line_marker_def line_name_def marker_def)
qed

lemma find_cat_subset:
  assumes "find_cat frag = Some m"
  shows "set m \<subseteq> set frag"
proof -
  from find_cat_SomeD[OF assms] obtain pre c post where
    f: "frag = pre @ c # post" and c: "cat_at (c # post) = Some m" by blast
  from cat_at_SomeD[OF c] obtain name rest where
    "c # post = marker name @ rest" "m = marker name" by blast
  with f have "frag = pre @ m @ rest" by simp
  then show ?thesis by auto
qed

lemma find_cat_line_marker:
  assumes "find_cat frag = Some m" and "CHR 0x0A \<notin> set frag"
  shows "is_line_marker m"
proof -
  from find_cat_is_marker[OF assms(1)] obtain name where
    m: "m = marker name" and n: "list_all not_bracket name" by blast
  from find_cat_subset[OF assms(1)] assms(2) have "CHR 0x0A \<notin> set m" by blast
  with m have "CHR 0x0A \<notin> set name" by (simp add: marker_def)
  with m n show ?thesis by (auto simp: is_line_marker_iff line_name_def)
qed

lemma fragment_no_newline:
  assumes "frag \<in> set (split_into_cats line)" and "CHR 0x0A \<notin> set line"
  shows "CHR 0x0A \<notin> set frag"
proof -
  from assms(1) obtain p where p: "p \<in> set (split_str '']]'' line)" and f: "frag = p @ '']]''"
    by (auto simp: split_into_cats_def)
  from split_str_subset[OF p] assms(2) have "CHR 0x0A \<notin> set p" by blast
  with f show ?thesis by simp
qed

lemma line_marker_not_Nil: "is_line_marker m \<Longrightarrow> m \<noteq> []"
  by (auto simp: is_line_marker_iff marker_def)

lemma line_marker_no_newline: "is_line_marker m \<Longrightarrow> CHR 0x0A \<notin> set m"
  by (simp add: is_line_marker_def)

section \<open>Replacement works line by line\<close>

lemma replace_newline:
  assumes ne: "m \<noteq> []" and nl: "CHR 0x0A \<notin> set m"
  shows "replace_by_empty m (a @ CHR 0x0A # b)
           = replace_by_empty m a @ CHR 0x0A # replace_by_empty m b"
proof (induction a rule: length_induct)
  case (1 a)
  have hd_m: "\<not> prefix m (CHR 0x0A # b)" for b
    using ne nl by (cases m) auto
  show ?case
  proof (cases a)
    case Nil
    then show ?thesis using hd_m by simp
  next
    case (Cons c cs)
    show ?thesis
    proof (cases "prefix m (c # cs)")
      case True
      define r where "r = drop (length m) (c # cs)"
      from True have a_eq: "a = m @ r"
        unfolding r_def Cons by (rule prefix_drop_eq)
      then have "length a = length m + length r" by simp
      with ne have "length r < length a" by simp
      with 1 have ih: "replace_by_empty m (r @ CHR 0x0A # b)
                         = replace_by_empty m r @ CHR 0x0A # replace_by_empty m b"
        by blast
      have "replace_by_empty m (a @ CHR 0x0A # b) = replace_by_empty m (m @ (r @ CHR 0x0A # b))"
        by (simp add: a_eq)
      also have "\<dots> = replace_by_empty m (r @ CHR 0x0A # b)"
        by (rule replace_self_append[OF ne])
      also note ih
      also have "replace_by_empty m r = replace_by_empty m a"
        unfolding a_eq by (rule replace_self_append[OF ne, symmetric])
      finally show ?thesis .
    next
      case False
      have np: "\<not> prefix m (c # (cs @ CHR 0x0A # b))"
      proof
        assume "prefix m (c # (cs @ CHR 0x0A # b))"
        then have "prefix m ((c # cs) @ CHR 0x0A # b)" by simp
        then have "prefix m (c # cs) \<or> (\<exists>us. m = (c # cs) @ us \<and> prefix us (CHR 0x0A # b))"
          by (simp only: prefix_append)
        with False obtain us where us: "m = (c # cs) @ us" and pu: "prefix us (CHR 0x0A # b)"
          by blast
        from us False have "us \<noteq> []" by auto
        with pu have "CHR 0x0A \<in> set us" by (cases us) auto
        with us nl show False by simp
      qed
      have "length cs < length a" by (simp add: Cons)
      with 1 have ih: "replace_by_empty m (cs @ CHR 0x0A # b)
                         = replace_by_empty m cs @ CHR 0x0A # replace_by_empty m b"
        by blast
      have "replace_by_empty m (a @ CHR 0x0A # b) = c # replace_by_empty m (cs @ CHR 0x0A # b)"
        using np by (simp add: Cons)
      also have "\<dots> = (c # replace_by_empty m cs) @ CHR 0x0A # replace_by_empty m b"
        by (simp add: ih)
      also have "c # replace_by_empty m cs = replace_by_empty m a"
        using False by (simp add: Cons)
      finally show ?thesis .
    qed
  qed
qed

lemma replace_append_newlines:
  assumes ne: "m \<noteq> []" and nl: "CHR 0x0A \<notin> set m"
  shows "replace_by_empty m (s @ replicate k (CHR 0x0A))
           = replace_by_empty m s @ replicate k (CHR 0x0A)"
proof (induction k arbitrary: s)
  case 0
  show ?case by simp
next
  case (Suc k)
  have "replace_by_empty m (s @ replicate (Suc k) (CHR 0x0A))
          = replace_by_empty m (s @ CHR 0x0A # replicate k (CHR 0x0A))" by simp
  also have "\<dots> = replace_by_empty m s @ CHR 0x0A # replace_by_empty m (replicate k (CHR 0x0A))"
    by (rule replace_newline[OF ne nl])
  also have "replace_by_empty m (replicate k (CHR 0x0A)) = replicate k (CHR 0x0A)"
    using Suc[of "[]"] by simp
  finally show ?case by simp
qed

lemma replace_subset: "set (replace_by_empty m t) \<subseteq> set t"
proof (induction m t rule: replace_by_empty.induct)
  case (1 old)
  show ?case by simp
next
  case (2 old c cs)
  show ?case
  proof (cases "old \<noteq> [] \<and> prefix old (c # cs)")
    case True
    with "2.IH"(1) have "set (replace_by_empty old (drop (length old) (c # cs)))
                           \<subseteq> set (drop (length old) (c # cs))" by blast
    also have "\<dots> \<subseteq> set (c # cs)" by (rule set_drop_subset)
    finally show ?thesis using True by simp
  next
    case False
    with "2.IH"(2) have "set (replace_by_empty old cs) \<subseteq> set cs" by blast
    then show ?thesis using False by auto
  qed
qed

lemma split_replace:
  assumes ne: "m \<noteq> []" and nl: "CHR 0x0A \<notin> set m"
  shows "split_str [CHR 0x0A] (replace_by_empty m t)
           = map (replace_by_empty m) (split_str [CHR 0x0A] t)"
proof (induction t rule: length_induct)
  case (1 t)
  show ?case
  proof (cases "CHR 0x0A \<in> set t")
    case False
    from False replace_subset[of m t] have "CHR 0x0A \<notin> set (replace_by_empty m t)" by blast
    with False show ?thesis by (simp add: split_char_absent del: split_str.simps)
  next
    case True
    then obtain a b where t: "t = a @ CHR 0x0A # b" and a: "CHR 0x0A \<notin> set a"
      by (meson split_list_first)
    have "length b < length t" by (simp add: t)
    with 1 have ih: "split_str [CHR 0x0A] (replace_by_empty m b)
                       = map (replace_by_empty m) (split_str [CHR 0x0A] b)" by blast
    from a replace_subset[of m a] have ra: "CHR 0x0A \<notin> set (replace_by_empty m a)" by blast
    have "split_str [CHR 0x0A] (replace_by_empty m t)
            = split_str [CHR 0x0A] (replace_by_empty m a @ CHR 0x0A # replace_by_empty m b)"
      by (simp only: t replace_newline[OF ne nl])
    also have "\<dots> = split_str [CHR 0x0A] (replace_by_empty m a) @ split_str [CHR 0x0A] (replace_by_empty m b)"
      by (rule split_char_append)
    also have "\<dots> = [replace_by_empty m a] @ map (replace_by_empty m) (split_str [CHR 0x0A] b)"
      by (simp only: split_char_absent[OF ra] ih)
    also have "\<dots> = map (replace_by_empty m) (split_str [CHR 0x0A] a @ split_str [CHR 0x0A] b)"
      by (simp add: split_char_absent[OF a] del: split_str.simps)
    also have "\<dots> = map (replace_by_empty m) (split_str [CHR 0x0A] t)"
      by (simp only: t split_char_append)
    finally show ?thesis .
  qed
qed

section \<open>Sequences of replacements\<close>

lemma removes_Nil: "removes [] t = t"
  by (simp add: removes_def)

lemma removes_snoc: "removes (cats @ [m]) t = replace_by_empty m (removes cats t)"
  by (simp add: removes_def)

lemma removes_Cons: "removes (m # cats) t = removes cats (replace_by_empty m t)"
  by (simp add: removes_def)

lemma removes_append_newlines:
  "\<forall>m\<in>set cats. is_line_marker m \<Longrightarrow>
     removes cats (s @ replicate k (CHR 0x0A)) = removes cats s @ replicate k (CHR 0x0A)"
proof (induction cats arbitrary: s)
  case Nil
  show ?case by (simp add: removes_Nil)
next
  case (Cons m cats)
  then have "m \<noteq> []" "CHR 0x0A \<notin> set m"
    by (simp_all add: line_marker_not_Nil line_marker_no_newline)
  from replace_append_newlines[OF this] Cons show ?case
    by (simp add: removes_Cons)
qed

lemma split_removes:
  "\<forall>m\<in>set cats. is_line_marker m \<Longrightarrow>
     split_str [CHR 0x0A] (removes cats t) = map (removes cats) (split_str [CHR 0x0A] t)"
proof (induction cats arbitrary: t)
  case Nil
  show ?case by (simp add: removes_Nil[abs_def])
next
  case (Cons m cats)
  then have "m \<noteq> []" "CHR 0x0A \<notin> set m"
    by (simp_all add: line_marker_not_Nil line_marker_no_newline)
  from split_replace[OF this] Cons show ?case
    by (simp add: removes_Cons[abs_def] comp_def)
qed

section \<open>Invariants of the scan\<close>

text \<open>The flag and the categories found do not depend on the text of the page.\<close>

lemma frag_step_core:
  assumes "should_be_moving st = should_be_moving st'"
    and "detected_categories st = detected_categories st'"
  shows "should_be_moving (frag_step line st f) = should_be_moving (frag_step line st' f)
       \<and> detected_categories (frag_step line st f) = detected_categories (frag_step line st' f)"
  using assms by (auto simp: frag_step_def Let_def split: option.splits)

lemma foldl_frag_step_core:
  assumes "should_be_moving st = should_be_moving st'"
    and "detected_categories st = detected_categories st'"
  shows "should_be_moving (foldl (frag_step line) st fs)
           = should_be_moving (foldl (frag_step line) st' fs)
       \<and> detected_categories (foldl (frag_step line) st fs)
           = detected_categories (foldl (frag_step line) st' fs)"
  using assms
proof (induction fs arbitrary: st st')
  case Nil
  then show ?case by simp
next
  case (Cons f fs)
  from frag_step_core[OF Cons.prems, of line f]
  have a: "should_be_moving (frag_step line st f) = should_be_moving (frag_step line st' f)"
    and b: "detected_categories (frag_step line st f) = detected_categories (frag_step line st' f)"
    by simp_all
  from Cons.IH[OF a b] show ?case by simp
qed

lemma line_step_core:
  assumes "should_be_moving st = should_be_moving st'"
    and "detected_categories st = detected_categories st'"
  shows "should_be_moving (line_step st line) = should_be_moving (line_step st' line)
       \<and> detected_categories (line_step st line) = detected_categories (line_step st' line)"
  using foldl_frag_step_core[OF assms, of line "butlast (split_into_cats line)"]
  by (simp add: line_step_def Let_def)

lemma foldl_line_step_core:
  assumes "should_be_moving st = should_be_moving st'"
    and "detected_categories st = detected_categories st'"
  shows "should_be_moving (foldl line_step st ls) = should_be_moving (foldl line_step st' ls)
       \<and> detected_categories (foldl line_step st ls) = detected_categories (foldl line_step st' ls)"
  using assms
proof (induction ls arbitrary: st st')
  case Nil
  then show ?case by simp
next
  case (Cons l ls)
  from line_step_core[OF Cons.prems, of l]
  have a: "should_be_moving (line_step st l) = should_be_moving (line_step st' l)"
    and b: "detected_categories (line_step st l) = detected_categories (line_step st' l)"
    by simp_all
  from Cons.IH[OF a b] show ?case by simp
qed

text \<open>The text of the page is the fetched text after the replacements made so far.\<close>

lemma frag_step_text:
  "page_text st = removes (detected_categories st) t0 \<Longrightarrow>
     page_text (frag_step line st f) = removes (detected_categories (frag_step line st f)) t0"
  by (auto simp: frag_step_def Let_def removes_snoc split: option.splits)

lemma foldl_frag_step_text:
  "page_text st = removes (detected_categories st) t0 \<Longrightarrow>
     page_text (foldl (frag_step line) st fs)
       = removes (detected_categories (foldl (frag_step line) st fs)) t0"
  by (induction fs arbitrary: st) (simp_all add: frag_step_text)

lemma line_step_text:
  "page_text st = removes (detected_categories st) t0 \<Longrightarrow>
     page_text (line_step st line) = removes (detected_categories (line_step st line)) t0"
  using foldl_frag_step_text[of st t0 line "butlast (split_into_cats line)"]
  by (simp add: line_step_def Let_def)

lemma foldl_line_step_text:
  "page_text st = removes (detected_categories st) t0 \<Longrightarrow>
     page_text (foldl line_step st ls) = removes (detected_categories (foldl line_step st ls)) t0"
  by (induction ls arbitrary: st) (simp_all add: line_step_text)

lemma scan_text: "page_text (scan t) = removes (detected_categories (scan t)) t"
  unfolding scan_def by (rule foldl_line_step_text) (simp add: removes_Nil)

text \<open>Every category found on a line without newline is a marker without newline.\<close>

lemma frag_step_cats:
  assumes "\<forall>m\<in>set (detected_categories st). is_line_marker m" and "CHR 0x0A \<notin> set f"
  shows "\<forall>m\<in>set (detected_categories (frag_step line st f)). is_line_marker m"
  using assms find_cat_line_marker[of f]
  by (auto simp: frag_step_def Let_def split: option.splits)

lemma foldl_frag_step_cats:
  assumes "\<forall>m\<in>set (detected_categories st). is_line_marker m"
    and "\<forall>f\<in>set fs. CHR 0x0A \<notin> set f"
  shows "\<forall>m\<in>set (detected_categories (foldl (frag_step line) st fs)). is_line_marker m"
  using assms
proof (induction fs arbitrary: st)
  case Nil
  then show ?case by simp
next
  case (Cons f fs)
  from Cons.prems have a: "\<forall>m\<in>set (detected_categories (frag_step line st f)). is_line_marker m"
    by (intro frag_step_cats) simp_all
  from Cons.prems have b: "\<forall>f\<in>set fs. CHR 0x0A \<notin> set f" by simp
  from Cons.IH[OF a b] show ?case by simp
qed

lemma line_step_cats:
  assumes "\<forall>m\<in>set (detected_categories st). is_line_marker m" and "CHR 0x0A \<notin> set line"
  shows "\<forall>m\<in>set (detected_categories (line_step st line)). is_line_marker m"
proof -
  have "\<forall>f\<in>set (butlast (split_into_cats line)). CHR 0x0A \<notin> set f"
    using fragment_no_newline[OF _ assms(2)] by (meson in_set_butlastD)
  from foldl_frag_step_cats[OF assms(1) this, of line] show ?thesis
    by (simp add: line_step_def Let_def)
qed

lemma foldl_line_step_cats:
  assumes "\<forall>m\<in>set (detected_categories st). is_line_marker m"
    and "\<forall>l\<in>set ls. CHR 0x0A \<notin> set l"
  shows "\<forall>m\<in>set (detected_categories (foldl line_step st ls)). is_line_marker m"
  using assms
proof (induction ls arbitrary: st)
  case Nil
  then show ?case by simp
next
  case (Cons l ls)
  from Cons.prems have a: "\<forall>m\<in>set (detected_categories (line_step st l)). is_line_marker m"
    by (intro line_step_cats) simp_all
  from Cons.prems have b: "\<forall>l\<in>set ls. CHR 0x0A \<notin> set l" by simp
  from Cons.IH[OF a b] show ?case by simp
qed

lemma scan_cats: "\<forall>m\<in>set (detected_categories (scan t)). is_line_marker m"
  unfolding scan_def
  by (rule foldl_line_step_cats) (auto dest: split_char_lines)

section \<open>Lines that leave the scan in the trailing region\<close>

lemma strip_close: "strip '']]'' = '']]''"
  by (simp add: strip_def rstrip_def lstrip_def is_space_def)

lemma line_step_empty: "line_step st [] = st"
  by (simp add: line_step_def split_into_cats_def strip_close)

lemma foldl_line_step_empty: "foldl line_step st (replicate k []) = st"
  by (induction k) (simp_all add: line_step_empty)

lemma foldl_frag_step_trailing:
  "\<not> should_be_moving (foldl (frag_step line) st fs) \<Longrightarrow> foldl (frag_step line) st fs = st"
proof (induction fs arbitrary: st)
  case Nil
  then show ?case by simp
next
  case (Cons f fs)
  from Cons.prems have "\<not> should_be_moving (frag_step line st f)"
    using foldl_frag_step_mono[of "frag_step line st f" line fs] by auto
  then have e: "frag_step line st f = st" by (rule frag_step_trailing)
  from Cons.prems have "\<not> should_be_moving (foldl (frag_step line) st fs)" by (simp add: e)
  from Cons.IH[OF this] show ?case by (simp add: e)
qed

lemma line_step_trailing:
  "\<not> should_be_moving (line_step st line) \<Longrightarrow> line_step st line = st"
proof -
  assume a: "\<not> should_be_moving (line_step st line)"
  let ?st1 = "foldl (frag_step line) st (butlast (split_into_cats line))"
  from a have n1: "\<not> should_be_moving ?st1"
    using line_step_after_frags[of line st] by blast
  with a have "line_step st line = ?st1"
    by (auto simp: line_step_def Let_def split: if_splits)
  with foldl_frag_step_trailing[OF n1] show ?thesis by simp
qed

lemma foldl_line_step_mono:
  "should_be_moving st \<Longrightarrow> should_be_moving (foldl line_step st ls)"
  by (induction ls arbitrary: st) (simp_all add: line_step_mono)

lemma foldl_line_step_trailing:
  "\<not> should_be_moving (foldl line_step st ls) \<Longrightarrow> foldl line_step st ls = st"
proof (induction ls arbitrary: st)
  case Nil
  then show ?case by simp
next
  case (Cons l ls)
  from Cons.prems have "\<not> should_be_moving (line_step st l)"
    using foldl_line_step_mono[of "line_step st l" ls] by auto
  then have e: "line_step st l = st" by (rule line_step_trailing)
  from Cons.prems have "\<not> should_be_moving (foldl line_step st ls)" by (simp add: e)
  from Cons.IH[OF this] show ?case by (simp add: e)
qed

section \<open>A line that is exactly a marker\<close>

lemma strip_id:
  assumes "s \<noteq> []" and "\<not> is_space (hd s)" and "\<not> is_space (last s)"
  shows "strip s = s"
proof -
  from assms(1,2) have l: "lstrip s = s"
    by (cases s) (simp_all add: lstrip_def)
  from assms(1,3) have "dropWhile is_space (rev s) = rev s"
    by (cases "rev s") (simp_all add: last_rev[symmetric] hd_rev)
  then have "rstrip s = s" by (simp add: rstrip_def)
  with l show ?thesis by (simp add: strip_def)
qed

lemma marker_last: "last (marker name) = CHR '']''"
  by (simp add: marker_def)

lemma strip_marker: "strip (marker name) = marker name"
proof (rule strip_id)
  show "marker name \<noteq> []" by (rule marker_not_Nil)
  show "\<not> is_space (hd (marker name))" by (simp add: marker_def is_space_def)
  show "\<not> is_space (last (marker name))" by (simp add: marker_last is_space_def)
qed

lemma split_close_absent:
  "CHR '']'' \<notin> set a \<Longrightarrow> split_str '']]'' (a @ '']]'' @ b) = a # split_str '']]'' b"
  by (induction a) simp_all

lemma split_into_cats_marker:
  assumes "list_all not_bracket name"
  shows "split_into_cats (marker name) = [marker name, '']]'']"
proof -
  have "CHR '']'' \<notin> set (''[[Category:'' @ name)"
    using assms by (auto simp: list_all_iff not_bracket_def)
  from split_close_absent[OF this, of "[]"]
  have "split_str '']]'' (marker name) = [''[[Category:'' @ name, []]"
    by (simp add: marker_def)
  then show ?thesis by (simp add: split_into_cats_def marker_def)
qed

lemma find_cat_marker: "line_name name \<Longrightarrow> find_cat (marker name) = Some (marker name)"
  using find_cat_at_marker[of name "[]"] by (simp add: line_name_def)

lemma marker_line_step:
  assumes m: "is_line_marker m" and t: "\<not> should_be_moving st"
  shows "line_step st m = st"
proof -
  from m obtain name where mn: "m = marker name" and n: "line_name name"
    by (auto simp: is_line_marker_iff)
  from n have sp: "split_into_cats m = [m, '']]'']"
    unfolding mn by (intro split_into_cats_marker) (simp add: line_name_def)
  have fc: "find_cat m = Some (strip m)"
    using find_cat_marker[OF n] by (simp add: mn strip_marker)
  have "frag_step m st m = st"
    using t fc by (simp add: frag_step_def)
  with t show ?thesis
    by (simp add: line_step_def sp strip_close)
qed

lemma foldl_marker_lines:
  "\<forall>m\<in>set ms. is_line_marker m \<Longrightarrow> \<not> should_be_moving st \<Longrightarrow> foldl line_step st ms = st"
  by (induction ms) (simp_all add: marker_line_step)

section \<open>The text produced\<close>

lemma move_cats_text_eq:
  "move_cats_text t = rstrip_nl (page_text (scan t)) @ attach (detected_categories (scan t))"
  by (simp add: move_cats_text_def move_cats_def Let_def attach_def)

lemma attach_snoc: "attach (cats @ [m]) = attach cats @ CHR 0x0A # m"
  by (simp add: attach_def)

lemma suffix_single: "suffix [c] s \<longleftrightarrow> s \<noteq> [] \<and> last s = c"
  by (cases s rule: rev_cases) (auto simp: suffix_def)

lemma attach_no_newline_end:
  assumes "cats \<noteq> []" and "\<forall>m\<in>set cats. is_line_marker m"
  shows "\<not> suffix [CHR 0x0A] (a @ attach cats)"
proof -
  from assms(1) obtain cs m where c: "cats = cs @ [m]"
    by (metis rev_exhaust)
  with assms(2) obtain name where "m = marker name"
    by (auto simp: is_line_marker_iff)
  then have "last (a @ attach cats) = CHR '']''"
    by (simp add: c attach_snoc marker_def)
  then show ?thesis by (simp add: suffix_single)
qed

section \<open>Scanning a text and the same text with other trailing lines\<close>

lemma scan_append_newlines:
  "should_be_moving (scan (t @ replicate k (CHR 0x0A))) = should_be_moving (scan t)
   \<and> detected_categories (scan (t @ replicate k (CHR 0x0A))) = detected_categories (scan t)
   \<and> page_text (scan (t @ replicate k (CHR 0x0A))) = page_text (scan t) @ replicate k (CHR 0x0A)"
proof -
  let ?t' = "t @ replicate k (CHR 0x0A)"
  let ?i = "\<lparr>should_be_moving = False, detected_categories = [], page_text = t\<rparr>"
  let ?i' = "\<lparr>should_be_moving = False, detected_categories = [], page_text = ?t'\<rparr>"
  let ?ls = "rev (split_str [CHR 0x0A] t)"
  have "scan ?t' = foldl line_step ?i' (replicate k [] @ ?ls)"
    by (simp add: scan_def split_append_newlines)
  also have "\<dots> = foldl line_step ?i' ?ls"
    by (simp add: foldl_line_step_empty)
  finally have s': "scan ?t' = foldl line_step ?i' ?ls" .
  have s: "scan t = foldl line_step ?i ?ls" by (simp add: scan_def)
  have core: "should_be_moving (scan ?t') = should_be_moving (scan t)
       \<and> detected_categories (scan ?t') = detected_categories (scan t)"
    unfolding s s' by (rule foldl_line_step_core) simp_all
  have "page_text (scan ?t') = removes (detected_categories (scan t)) ?t'"
    using scan_text[of ?t'] core by simp
  also have "\<dots> = removes (detected_categories (scan t)) t @ replicate k (CHR 0x0A)"
    by (rule removes_append_newlines) (rule scan_cats)
  also have "\<dots> = page_text (scan t) @ replicate k (CHR 0x0A)"
    by (simp add: scan_text[of t])
  finally show ?thesis using core by simp
qed

lemma scan_rstrip_nl:
  "should_be_moving (scan (rstrip_nl t)) = should_be_moving (scan t)
   \<and> detected_categories (scan (rstrip_nl t)) = detected_categories (scan t)"
proof -
  obtain k where "t = rstrip_nl t @ replicate k (CHR 0x0A)"
    using rstrip_nl_decomp by blast
  with scan_append_newlines[of "rstrip_nl t" k] show ?thesis by simp
qed

lemma scan_attach:
  assumes cs: "\<forall>m\<in>set cats. is_line_marker m"
  shows "should_be_moving (scan (a @ attach cats)) = should_be_moving (scan a)
   \<and> detected_categories (scan (a @ attach cats)) = detected_categories (scan a)"
proof -
  let ?o = "a @ attach cats"
  let ?i = "\<lparr>should_be_moving = False, detected_categories = [], page_text = a\<rparr>"
  let ?i' = "\<lparr>should_be_moving = False, detected_categories = [], page_text = ?o\<rparr>"
  let ?ls = "rev (split_str [CHR 0x0A] a)"
  have nl: "\<forall>m\<in>set cats. CHR 0x0A \<notin> set m"
    using cs by (simp add: line_marker_no_newline)
  have "scan ?o = foldl line_step (foldl line_step ?i' (rev cats)) ?ls"
    by (simp add: scan_def split_attach[OF nl])
  also have "foldl line_step ?i' (rev cats) = ?i'"
    by (rule foldl_marker_lines) (simp_all add: cs)
  finally have s': "scan ?o = foldl line_step ?i' ?ls" .
  have s: "scan a = foldl line_step ?i ?ls" by (simp add: scan_def)
  show ?thesis unfolding s s' by (rule foldl_line_step_core) simp_all
qed

section \<open>A line of the trailing region\<close>

lemma strip_decomp:
  "\<exists>ws1 ws2. s = ws1 @ strip s @ ws2 \<and> list_all is_space ws1 \<and> list_all is_space ws2"
proof -
  define d where "d = dropWhile is_space s"
  have s: "s = takeWhile is_space s @ d" by (simp add: d_def)
  have "d = rev (takeWhile is_space (rev d) @ dropWhile is_space (rev d))"
    by (simp only: takeWhile_dropWhile_id rev_rev_ident)
  also have "\<dots> = rev (dropWhile is_space (rev d)) @ rev (takeWhile is_space (rev d))"
    by (rule rev_append)
  also have "rev (dropWhile is_space (rev d)) = strip s"
    by (simp add: strip_def rstrip_def lstrip_def d_def)
  finally have d: "d = strip s @ rev (takeWhile is_space (rev d))" .
  have 1: "list_all is_space (takeWhile is_space s)"
    by (simp add: list_all_iff) (meson set_takeWhileD)
  have 2: "list_all is_space (rev (takeWhile is_space (rev d)))"
    by (simp add: list_all_iff) (meson set_takeWhileD)
  from s d have "s = takeWhile is_space s @ strip s @ rev (takeWhile is_space (rev d))"
    by simp
  with 1 2 show ?thesis by blast
qed

lemma space_not_open: "is_space c \<Longrightarrow> c \<noteq> CHR ''[''"
  by (auto simp: is_space_def)

lemma filter_open_marker:
  "list_all not_bracket name \<Longrightarrow> filter (\<lambda>c. c = CHR ''['') (marker name) = ''[[''"
  by (auto simp: marker_def list_all_iff not_bracket_def filter_empty_conv)

lemma filter_open_spaces:
  "list_all is_space ws \<Longrightarrow> filter (\<lambda>c. c = CHR ''['') ws = []"
  by (auto simp: list_all_iff filter_empty_conv dest: space_not_open)

lemma marker_names_eq:
  assumes "list_all not_bracket n1" and "list_all not_bracket n2"
    and "marker n1 @ y = marker n2 @ z"
  shows "n1 = n2"
proof -
  from assms(3) have "n1 @ CHR '']'' # (CHR '']'' # y) = n2 @ CHR '']'' # (CHR '']'' # z)"
    by (simp add: marker_def)
  then have "takeWhile not_bracket (n1 @ CHR '']'' # (CHR '']'' # y))
             = takeWhile not_bracket (n2 @ CHR '']'' # (CHR '']'' # z))"
    by (rule arg_cong)
  then show ?thesis
    by (simp only: takeWhile_name[OF assms(1)] takeWhile_name[OF assms(2)])
qed

lemma first_occurrence_eq:
  "c \<notin> set a \<Longrightarrow> c \<notin> set b \<Longrightarrow> a @ c # r = b @ c # s \<Longrightarrow> a = b \<and> r = s"
proof (induction a arbitrary: b)
  case Nil
  then show ?case by (cases b) auto
next
  case (Cons x a)
  then show ?case by (cases b) auto
qed

lemma marker_in_marker_line:
  assumes n1: "list_all not_bracket n1" and n2: "list_all not_bracket n2"
    and w1: "list_all is_space ws1" and w2: "list_all is_space ws2"
    and eq: "ws1 @ marker n2 @ ws2 = x @ marker n1 @ y"
  shows "n1 = n2"
proof -
  let ?P = "\<lambda>c. c = CHR ''[''"
  from eq have "filter ?P (ws1 @ marker n2 @ ws2) = filter ?P (x @ marker n1 @ y)"
    by (rule arg_cong)
  then have "''[['' = filter ?P x @ ''[['' @ filter ?P y"
    by (simp add: filter_open_marker[OF n1] filter_open_marker[OF n2]
        filter_open_spaces[OF w1] filter_open_spaces[OF w2])
  then have "length ''[['' = length (filter ?P x @ ''[['' @ filter ?P y)"
    by (rule arg_cong)
  then have "filter ?P x = []" by simp
  then have x: "CHR ''['' \<notin> set x" by (auto simp: filter_empty_conv)
  from w1 have w: "CHR ''['' \<notin> set ws1"
    by (auto simp: list_all_iff dest: space_not_open)
  define r1 where "r1 = CHR ''['' # ''Category:'' @ n1 @ '']]'' @ y"
  define r2 where "r2 = CHR ''['' # ''Category:'' @ n2 @ '']]'' @ ws2"
  from eq have e: "ws1 @ CHR ''['' # r2 = x @ CHR ''['' # r1"
    by (simp add: marker_def r1_def r2_def)
  from first_occurrence_eq[OF w x e] have "r2 = r1" by simp
  then have "marker n1 @ y = marker n2 @ ws2"
    by (simp add: marker_def r1_def r2_def)
  with n1 n2 show ?thesis by (rule marker_names_eq)
qed

lemma replace_other_marker:
  assumes c: "is_line_marker c" and m: "is_line_marker m" and ne: "c \<noteq> m"
    and w1: "list_all is_space ws1" and w2: "list_all is_space ws2"
  shows "replace_by_empty c (ws1 @ m @ ws2) = ws1 @ m @ ws2"
proof (rule replace_absent)
  from c obtain n1 where c1: "c = marker n1" and n1: "list_all not_bracket n1"
    by (auto simp: is_line_marker_iff line_name_def)
  from m obtain n2 where m2: "m = marker n2" and n2: "list_all not_bracket n2"
    by (auto simp: is_line_marker_iff line_name_def)
  show "\<not> sublist c (ws1 @ m @ ws2)"
  proof
    assume "sublist c (ws1 @ m @ ws2)"
    then obtain x y where "ws1 @ marker n2 @ ws2 = x @ marker n1 @ y"
      by (auto simp: sublist_def c1 m2)
    from marker_in_marker_line[OF n1 n2 w1 w2 this] ne show False
      by (simp add: c1 m2)
  qed
qed

lemma removes_id: "\<forall>c\<in>set cats. replace_by_empty c s = s \<Longrightarrow> removes cats s = s"
  by (induction cats) (simp_all add: removes_Nil removes_Cons)

lemma trailing_fragment:
  "\<not> should_be_moving (foldl (frag_step line) st fs) \<Longrightarrow> f \<in> set fs \<Longrightarrow>
     find_cat f = Some (strip line)"
proof (induction fs arbitrary: st)
  case Nil
  then show ?case by simp
next
  case (Cons g fs)
  from Cons.prems(1) have n: "\<not> should_be_moving (frag_step line st g)"
    using foldl_frag_step_mono[of "frag_step line st g" line fs] by auto
  then have g: "find_cat g = Some (strip line)"
    by (simp add: frag_step_flag)
  from n have e: "frag_step line st g = st" by (rule frag_step_trailing)
  from Cons.prems(2) have "f = g \<or> f \<in> set fs" by simp
  then show ?case
  proof
    assume "f = g"
    with g show ?thesis by simp
  next
    assume f: "f \<in> set fs"
    from Cons.prems(1) have "\<not> should_be_moving (foldl (frag_step line) st fs)"
      by (simp add: e)
    from Cons.IH[OF this f] show ?thesis .
  qed
qed

lemma trailing_line:
  assumes t: "\<not> should_be_moving (line_step st line)"
    and f: "f \<in> set (butlast (split_into_cats line))"
  shows "find_cat f = Some (strip line)"
proof -
  from t have "\<not> should_be_moving (foldl (frag_step line) st (butlast (split_into_cats line)))"
    using line_step_after_frags[of line st] by blast
  from trailing_fragment[OF this f] show ?thesis .
qed

section \<open>What a line adds to the categories found\<close>

lemma frag_step_moving_cats:
  "should_be_moving st \<Longrightarrow>
     should_be_moving (frag_step line st f) \<and>
     detected_categories (frag_step line st f)
       = detected_categories st @ List.map_filter find_cat [f]"
  by (simp add: frag_step_def split: option.splits)

lemma frag_step_flip_cats:
  "\<not> should_be_moving st \<Longrightarrow> find_cat f \<noteq> Some (strip line) \<Longrightarrow>
     should_be_moving (frag_step line st f) \<and>
     detected_categories (frag_step line st f)
       = detected_categories st @ List.map_filter find_cat [f]"
  by (auto simp: frag_step_def split: option.splits)

lemma foldl_frag_step_moving:
  "should_be_moving st \<Longrightarrow>
     should_be_moving (foldl (frag_step line) st fs) \<and>
     detected_categories (foldl (frag_step line) st fs)
       = detected_categories st @ List.map_filter find_cat fs"
proof (induction fs arbitrary: st)
  case Nil
  then show ?case by simp
next
  case (Cons f fs)
  from frag_step_moving_cats[OF Cons.prems, of line f]
  have m: "should_be_moving (frag_step line st f)"
    and c: "detected_categories (frag_step line st f)
              = detected_categories st @ List.map_filter find_cat [f]"
    by simp_all
  from Cons.IH[OF m] c show ?case by (simp split: option.splits)
qed

lemma line_step_cats_of_frags:
  "detected_categories (line_step st line)
     = detected_categories (foldl (frag_step line) st (butlast (split_into_cats line)))"
  by (simp add: line_step_def Let_def)

lemma line_step_moving:
  assumes "should_be_moving st"
  shows "should_be_moving (line_step st line) \<and>
         detected_categories (line_step st line) = detected_categories st @ line_cats line"
  using foldl_frag_step_moving[OF assms, of line "butlast (split_into_cats line)"]
    line_step_mono[OF assms, of line]
  by (simp add: line_step_cats_of_frags line_cats_def)

lemma foldl_line_step_moving:
  "should_be_moving st \<Longrightarrow>
     detected_categories (foldl line_step st ls)
       = detected_categories st @ concat (map line_cats ls)"
proof (induction ls arbitrary: st)
  case Nil
  then show ?case by simp
next
  case (Cons l ls)
  from line_step_moving[OF Cons.prems, of l]
  have m: "should_be_moving (line_step st l)"
    and c: "detected_categories (line_step st l) = detected_categories st @ line_cats l"
    by simp_all
  from Cons.IH[OF m] c show ?case by simp
qed

section \<open>White space around a text\<close>

lemma space_not_close: "is_space c \<Longrightarrow> c \<noteq> CHR '']''"
  by (auto simp: is_space_def)

lemma strip_sandwich:
  assumes w1: "list_all is_space ws1" and w2: "list_all is_space ws2"
    and s: "s \<noteq> []" and h: "\<not> is_space (hd s)" and l: "\<not> is_space (last s)"
  shows "strip (ws1 @ s @ ws2) = s"
proof -
  have "dropWhile is_space (ws1 @ s @ ws2) = dropWhile is_space (s @ ws2)"
    using w1 by (intro dropWhile_append2) (simp add: list_all_iff)
  also have "\<dots> = s @ ws2"
    using s h by (cases s) simp_all
  finally have ls: "lstrip (ws1 @ s @ ws2) = s @ ws2" by (simp add: lstrip_def)
  have "dropWhile is_space (rev ws2 @ rev s) = dropWhile is_space (rev s)"
    using w2 by (intro dropWhile_append2) (simp add: list_all_iff)
  also have "\<dots> = rev s"
    using s l by (cases "rev s") (simp_all add: last_rev[symmetric] hd_rev)
  finally have "rstrip (s @ ws2) = s" by (simp add: rstrip_def)
  with ls show ?thesis by (simp add: strip_def)
qed

lemma strip_spaces_close: "list_all is_space ws \<Longrightarrow> strip (ws @ '']]'') = '']]''"
  using strip_sandwich[of ws "[]" "'']]''"] by (simp add: is_space_def)

lemma strip_close_spaces:
  assumes "strip (g @ '']]'') = '']]''"
  shows "list_all is_space g"
proof -
  from strip_decomp[of "g @ '']]''"] assms obtain ws1 ws2 where
    d: "g @ '']]'' = ws1 @ '']]'' @ ws2" and w1: "list_all is_space ws1"
    and w2: "list_all is_space ws2" by auto
  have "ws2 = []"
  proof (rule ccontr)
    assume ne: "ws2 \<noteq> []"
    from d have "last (g @ '']]'') = last (ws1 @ '']]'' @ ws2)" by simp
    with ne have "last ws2 = CHR '']''" by simp
    moreover from ne w2 have "is_space (last ws2)" by (simp add: list_all_iff)
    ultimately show False by (auto dest: space_not_close)
  qed
  with d have "g = ws1" by simp
  with w1 show ?thesis by simp
qed

section \<open>Fragments of a line\<close>

lemma split_close_none: "CHR '']'' \<notin> set a \<Longrightarrow> split_str '']]'' a = [a]"
  by (induction a) simp_all

lemma split_single: "split_str sep s = [p] \<Longrightarrow> p = s"
proof (induction sep s arbitrary: p rule: split_str.induct)
  case (1 sep)
  then show ?case by simp
next
  case (2 sep c cs)
  show ?case
  proof (cases "sep \<noteq> [] \<and> prefix sep (c # cs)")
    case True
    with "2.prems" have "split_str sep (drop (length sep) (c # cs)) = []" by simp
    then show ?thesis by (simp add: split_str_not_Nil)
  next
    case False
    obtain q qs where q: "split_str sep cs = q # qs"
      using split_str_not_Nil[of sep cs] by (cases "split_str sep cs") auto
    with "2.prems" False have p: "p = c # q" and "qs = []" by auto
    with q have "split_str sep cs = [q]" by simp
    with "2.IH"(2) False have "q = cs" by blast
    with p show ?thesis by simp
  qed
qed

lemma split_into_cats_not_Nil: "split_into_cats line \<noteq> []"
  by (simp add: split_into_cats_def split_str_not_Nil)

lemma no_fragment_line:
  assumes "butlast (split_into_cats line) = []"
  shows "split_into_cats line = [line @ '']]'']"
proof -
  from assms split_str_not_Nil[of "'']]''" line] obtain p where p: "split_str '']]'' line = [p]"
    by (cases "split_str '']]'' line") (auto simp: split_into_cats_def split: if_splits)
  from split_single[OF p] p show ?thesis by (simp add: split_into_cats_def)
qed

lemma no_close_fragments:
  "CHR '']'' \<notin> set line \<Longrightarrow> split_into_cats line = [line @ '']]'']"
  by (simp add: split_into_cats_def split_close_none)

lemma no_close_line_step:
  "CHR '']'' \<notin> set line \<Longrightarrow>
     detected_categories (line_step st line) = detected_categories st"
  by (simp add: line_step_def no_close_fragments)

lemma foldl_no_close_line_step:
  "\<forall>l\<in>set ls. CHR '']'' \<notin> set l \<Longrightarrow>
     detected_categories (foldl line_step st ls) = detected_categories st"
  by (induction ls arbitrary: st) (simp_all add: no_close_line_step)

section \<open>Lines that keep the scan in the trailing region\<close>

lemma spaces_line_step:
  assumes w: "list_all is_space line" and t: "\<not> should_be_moving st"
  shows "line_step st line = st"
proof -
  from w have "CHR '']'' \<notin> set line"
    by (auto simp: list_all_iff dest: space_not_close)
  then have "split_into_cats line = [line @ '']]'']" by (rule no_close_fragments)
  with t show ?thesis by (simp add: line_step_def strip_spaces_close[OF w])
qed

lemma spaces_marker_line_step:
  assumes m: "is_line_marker m" and w1: "list_all is_space ws1" and w2: "list_all is_space ws2"
    and nl: "CHR 0x0A \<notin> set ws1" and t: "\<not> should_be_moving st"
  shows "line_step st (ws1 @ m @ ws2) = st"
proof -
  let ?l = "ws1 @ m @ ws2"
  from m obtain name where mn: "m = marker name" and n: "line_name name"
    by (auto simp: is_line_marker_iff)
  from n have nb: "list_all not_bracket name" and nn: "CHR 0x0A \<notin> set name"
    by (simp_all add: line_name_def)
  have c1: "CHR '']'' \<notin> set (ws1 @ ''[[Category:'' @ name)"
    using w1 nb by (auto simp: list_all_iff not_bracket_def dest: space_not_close)
  have c2: "CHR '']'' \<notin> set ws2"
    using w2 by (auto simp: list_all_iff dest: space_not_close)
  have "?l = (ws1 @ ''[[Category:'' @ name) @ '']]'' @ ws2" by (simp add: mn marker_def)
  then have "split_str '']]'' ?l = (ws1 @ ''[[Category:'' @ name) # split_str '']]'' ws2"
    by (simp only: split_close_absent[OF c1])
  then have sp: "split_into_cats ?l = [ws1 @ m, ws2 @ '']]'']"
    by (simp add: split_into_cats_def split_close_none[OF c2] mn marker_def)
  have stp: "strip ?l = m"
    unfolding mn using w1 w2
    by (rule strip_sandwich) (simp_all add: marker_not_Nil marker_last, simp_all add: marker_def is_space_def)
  have "find_cat (ws1 @ marker name @ []) = Some (marker name)"
    using find_cat_embedded[OF nl nb nn, of "[]"] by simp
  then have "find_cat (ws1 @ m) = Some m" by (simp add: mn)
  then have fc: "find_cat (ws1 @ m) = Some (strip ?l)" by (simp only: stp)
  have "frag_step ?l st (ws1 @ m) = st"
    using t fc by (simp add: frag_step_def)
  with t show ?thesis
    by (simp add: line_step_def sp strip_spaces_close[OF w2])
qed

lemma trailing_line_shape:
  assumes t: "\<not> should_be_moving (line_step st line)" and nl: "CHR 0x0A \<notin> set line"
  shows "list_all is_space line \<or>
         (\<exists>ws1 m ws2. line = ws1 @ m @ ws2 \<and> is_line_marker m
             \<and> list_all is_space ws1 \<and> list_all is_space ws2)"
proof (cases "butlast (split_into_cats line)")
  case Nil
  then have sp: "split_into_cats line = [line @ '']]'']" by (rule no_fragment_line)
  from t have "strip (last (split_into_cats line)) = '']]''"
    by (auto simp: line_step_def Let_def split: if_splits)
  then have "list_all is_space line"
    by (simp add: sp strip_close_spaces)
  then show ?thesis by simp
next
  case (Cons f fs)
  then have f: "f \<in> set (butlast (split_into_cats line))" by simp
  from trailing_line[OF t f] have fc: "find_cat f = Some (strip line)" .
  from f have "f \<in> set (split_into_cats line)" by (rule in_set_butlastD)
  from fragment_no_newline[OF this nl] have "CHR 0x0A \<notin> set f" .
  from find_cat_line_marker[OF fc this] have "is_line_marker (strip line)" .
  with strip_decomp[of line] show ?thesis by blast
qed

lemma flip_line_cats:
  assumes t: "\<not> should_be_moving st" and m: "should_be_moving (line_step st line)"
    and nl: "CHR 0x0A \<notin> set line"
  shows "detected_categories (line_step st line) = detected_categories st @ line_cats line"
proof (cases "butlast (split_into_cats line)")
  case Nil
  then show ?thesis by (simp add: line_step_cats_of_frags line_cats_def)
next
  case (Cons f fs)
  have ne: "find_cat f \<noteq> Some (strip line)"
  proof
    assume fc: "find_cat f = Some (strip line)"
    from Cons have "f \<in> set (split_into_cats line)"
      by (metis in_set_butlastD list.set_intros(1))
    from fragment_no_newline[OF this nl] have "CHR 0x0A \<notin> set f" .
    from find_cat_line_marker[OF fc this] have lm: "is_line_marker (strip line)" .
    from strip_decomp[of line] obtain ws1 ws2 where
      d: "line = ws1 @ strip line @ ws2" and w1: "list_all is_space ws1"
      and w2: "list_all is_space ws2" by blast
    from d nl have "CHR 0x0A \<notin> set ws1"
      by (metis Un_iff set_append)
    from spaces_marker_line_step[OF lm w1 w2 this t] d have "line_step st line = st" by simp
    with t m show False by simp
  qed
  from frag_step_flip_cats[OF t ne]
  have m1: "should_be_moving (frag_step line st f)"
    and c1: "detected_categories (frag_step line st f)
               = detected_categories st @ List.map_filter find_cat [f]" by simp_all
  from foldl_frag_step_moving[OF m1, of line fs] c1 show ?thesis
    by (simp add: line_step_cats_of_frags line_cats_def Cons split: option.splits)
qed

lemma foldl_line_step_structure:
  assumes "\<not> should_be_moving st" and "\<forall>l\<in>set ls. CHR 0x0A \<notin> set l"
  shows "\<exists>ls1 ls2. ls = ls1 @ ls2
           \<and> (\<forall>l\<in>set ls1. \<not> should_be_moving (line_step st l))
           \<and> detected_categories (foldl line_step st ls)
               = detected_categories st @ concat (map line_cats ls2)"
  using assms(2)
proof (induction ls)
  case Nil
  show ?case by simp
next
  case (Cons l ls)
  from Cons.prems have nl: "CHR 0x0A \<notin> set l" and nls: "\<forall>l\<in>set ls. CHR 0x0A \<notin> set l"
    by simp_all
  show ?case
  proof (cases "should_be_moving (line_step st l)")
    case False
    then have e: "line_step st l = st" by (rule line_step_trailing)
    from Cons.IH[OF nls] obtain ls1 ls2 where
      "ls = ls1 @ ls2" "\<forall>l\<in>set ls1. \<not> should_be_moving (line_step st l)"
      "detected_categories (foldl line_step st ls)
         = detected_categories st @ concat (map line_cats ls2)" by blast
    with False e show ?thesis
      by (intro exI[of _ "l # ls1"] exI[of _ ls2]) simp
  next
    case True
    from flip_line_cats[OF assms(1) True nl]
    have c: "detected_categories (line_step st l) = detected_categories st @ line_cats l" .
    from foldl_line_step_moving[OF True, of ls] c
    have "detected_categories (foldl line_step st (l # ls))
            = detected_categories st @ concat (map line_cats (l # ls))" by simp
    then show ?thesis
      by (intro exI[of _ "[]"] exI[of _ "l # ls"]) simp
  qed
qed

section \<open>Replacement next to plain text\<close>

lemma line_marker_hd: "is_line_marker c \<Longrightarrow> \<exists>r. c = CHR ''['' # CHR ''['' # r"
  by (auto simp: is_line_marker_iff marker_def)

lemma replace_skip_text:
  assumes c: "is_line_marker c" and p: "CHR ''['' \<notin> set p"
  shows "replace_by_empty c (p @ rest) = p @ replace_by_empty c rest"
  using p
proof (induction p)
  case Nil
  show ?case by simp
next
  case (Cons x p)
  from line_marker_hd[OF c] obtain r where r: "c = CHR ''['' # CHR ''['' # r" by blast
  from Cons.prems have "x \<noteq> CHR ''[''" by auto
  with r have "\<not> prefix c (x # (p @ rest))" by simp
  then have "replace_by_empty c ((x # p) @ rest) = x # replace_by_empty c (p @ rest)"
    by simp
  with Cons show ?case by simp
qed

section \<open>Lists of fragments\<close>

lemma butlast_Cons_ne: "xs \<noteq> [] \<Longrightarrow> butlast (x # xs) = x # butlast xs"
  by simp

section \<open>The text left by the replacements\<close>

lemma replace_spaces:
  assumes "is_line_marker c" and "list_all is_space ws"
  shows "replace_by_empty c ws = ws"
proof -
  from assms(2) have "CHR ''['' \<notin> set ws"
    by (auto simp: list_all_iff dest: space_not_open)
  from replace_skip_text[OF assms(1) this, of "[]"] show ?thesis by simp
qed

lemma removes_spaces:
  "\<forall>c\<in>set cats. is_line_marker c \<Longrightarrow> list_all is_space ws \<Longrightarrow> removes cats ws = ws"
  by (rule removes_id) (simp add: replace_spaces)

lemma removes_marker_line:
  assumes m: "is_line_marker m" and w1: "list_all is_space ws1" and w2: "list_all is_space ws2"
  shows "\<forall>c\<in>set cats. is_line_marker c \<Longrightarrow>
           removes cats (ws1 @ m @ ws2) = ws1 @ m @ ws2 \<or> removes cats (ws1 @ m @ ws2) = ws1 @ ws2"
proof (induction cats)
  case Nil
  show ?case by (simp add: removes_Nil)
next
  case (Cons c cats)
  from Cons.prems have c: "is_line_marker c" and cs: "\<forall>c\<in>set cats. is_line_marker c"
    by simp_all
  show ?case
  proof (cases "c = m")
    case True
    from m obtain name where mn: "m = marker name" and n: "list_all not_bracket name"
      by (auto simp: is_line_marker_iff line_name_def)
    have "replace_by_empty m (ws1 @ m @ ws2) = replace_by_empty m ws1 @ replace_by_empty m ws2"
      unfolding mn by (rule replace_marker_occurrence[OF n])
    also have "\<dots> = ws1 @ ws2"
      by (simp add: replace_spaces[OF m w1] replace_spaces[OF m w2])
    finally have "removes (c # cats) (ws1 @ m @ ws2) = removes cats (ws1 @ ws2)"
      by (simp add: removes_Cons True)
    also have "\<dots> = ws1 @ ws2"
      using cs w1 w2 by (intro removes_spaces) simp_all
    finally show ?thesis by simp
  next
    case False
    from replace_other_marker[OF c m False w1 w2]
    have "removes (c # cats) (ws1 @ m @ ws2) = removes cats (ws1 @ m @ ws2)"
      by (simp add: removes_Cons)
    with Cons.IH[OF cs] show ?thesis by simp
  qed
qed

lemma trailing_line_after_removes:
  assumes t: "\<not> should_be_moving (line_step st l)" and nl: "CHR 0x0A \<notin> set l"
    and cs: "\<forall>c\<in>set cats. is_line_marker c" and t': "\<not> should_be_moving st'"
  shows "line_step st' (removes cats l) = st'"
proof -
  from trailing_line_shape[OF t nl]
  consider (spaces) "list_all is_space l"
    | (marker) ws1 m ws2 where "l = ws1 @ m @ ws2" "is_line_marker m"
        "list_all is_space ws1" "list_all is_space ws2"
    by blast
  then show ?thesis
  proof cases
    case spaces
    with removes_spaces[OF cs spaces] spaces_line_step[OF spaces t'] show ?thesis by simp
  next
    case marker
    from marker(1) nl have nl1: "CHR 0x0A \<notin> set ws1" by simp
    from removes_marker_line[OF marker(2,3,4) cs]
    show ?thesis
    proof
      assume "removes cats (ws1 @ m @ ws2) = ws1 @ m @ ws2"
      with spaces_marker_line_step[OF marker(2,3,4) nl1 t'] marker(1) show ?thesis by simp
    next
      assume e: "removes cats (ws1 @ m @ ws2) = ws1 @ ws2"
      have "list_all is_space (ws1 @ ws2)" using marker(3,4) by simp
      from spaces_line_step[OF this t'] e marker(1) show ?thesis by simp
    qed
  qed
qed

lemma foldl_line_step_noop:
  "\<forall>l\<in>set ls. line_step st l = st \<Longrightarrow> foldl line_step st ls = st"
  by (induction ls) simp_all

section \<open>Lines with flat brackets\<close>

lemma takeWhile_not_bracket_ok: "list_all not_bracket (takeWhile not_bracket s)"
  by (simp add: list_all_iff) (meson set_takeWhileD)

lemma tokens_sound:
  "tokens l = Some ts \<Longrightarrow> l = concat (map render ts) \<and> list_all token_ok ts"
proof (induction l arbitrary: ts rule: tokens.induct)
  case 1
  then show ?case by simp
next
  case (2 c cs)
  show ?case
  proof (cases "c = CHR ''[''")
    case open_b: True
    show ?thesis
    proof (cases "prefix ''['' cs")
      case dbl: True
      let ?body = "tl cs"
      let ?rest = "dropWhile not_bracket ?body"
      from "2.prems" open_b dbl have cl: "prefix '']]'' ?rest"
        by (auto split: if_splits)
      with "2.prems" open_b dbl obtain ts' where
        t': "tokens (drop 2 ?rest) = Some ts'"
        and ts: "ts = Double (takeWhile not_bracket ?body) # ts'"
        by auto
      from "2.IH"(1)[OF open_b dbl cl t']
      have ih: "drop 2 ?rest = concat (map render ts')" "list_all token_ok ts'" by simp_all
      from dbl have cs: "cs = CHR ''['' # ?body" by (cases cs) auto
      from cl have r: "?rest = '']]'' @ drop 2 ?rest" by (auto simp: prefix_def)
      have "?body = takeWhile not_bracket ?body @ ?rest" by simp
      with r have "?body = takeWhile not_bracket ?body @ '']]'' @ drop 2 ?rest" by simp
      with cs open_b ih(1) have "c # cs = concat (map render ts)"
        by (simp add: ts)
      with ih(2) show ?thesis by (simp add: ts takeWhile_not_bracket_ok)
    next
      case sgl: False
      let ?rest = "dropWhile not_bracket cs"
      from "2.prems" open_b sgl have cl: "prefix '']'' ?rest"
        by (auto split: if_splits)
      with "2.prems" open_b sgl obtain ts' where
        t': "tokens (drop 1 ?rest) = Some ts'"
        and ts: "ts = Single (takeWhile not_bracket cs) # ts'"
        by auto
      from "2.IH"(2)[OF open_b sgl cl t']
      have ih: "drop 1 ?rest = concat (map render ts')" "list_all token_ok ts'" by simp_all
      from cl have r: "?rest = '']'' @ drop 1 ?rest" by (auto simp: prefix_def)
      have "cs = takeWhile not_bracket cs @ ?rest" by simp
      with r have "cs = takeWhile not_bracket cs @ '']'' @ drop 1 ?rest" by simp
      with open_b ih(1) have "c # cs = concat (map render ts)"
        by (simp add: ts)
      with ih(2) show ?thesis by (simp add: ts takeWhile_not_bracket_ok)
    qed
  next
    case no_open: False
    with "2.prems" have no_close: "c \<noteq> CHR '']''" by (auto split: if_splits)
    with "2.prems" no_open obtain ts' where
      t': "tokens cs = Some ts'" and ts: "ts = Text [c] # ts'" by auto
    from "2.IH"(3)[OF no_open no_close t']
    have "cs = concat (map render ts')" "list_all token_ok ts'" by simp_all
    with no_open no_close show ?thesis by (simp add: ts not_bracket_def)
  qed
qed


section \<open>Fragments of a line with flat brackets\<close>

lemma flat_no_close_first:
  "list_all token_ok ts \<Longrightarrow> \<not> prefix '']'' (concat (map render ts))"
proof (induction ts)
  case Nil
  show ?case by simp
next
  case (Cons t ts)
  then have ih: "\<not> prefix '']'' (concat (map render ts))" by simp
  show ?case
  proof (cases t)
    case (Text p)
    with Cons.prems have ok: "list_all not_bracket p" by simp
    show ?thesis
    proof (cases p)
      case Nil
      with Text ih show ?thesis by simp
    next
      case (Cons x xs)
      with ok have "x \<noteq> CHR '']''" by (simp add: not_bracket_def)
      with Cons Text show ?thesis by simp
    qed
  next
    case (Single i)
    then show ?thesis by simp
  next
    case (Double i)
    then show ?thesis by simp
  qed
qed

lemma split_str_Cons_no:
  assumes "\<not> prefix sep (c # cs)"
  shows "split_str sep (c # cs) = (c # hd (split_str sep cs)) # tl (split_str sep cs)"
  using assms split_str_not_Nil[of sep cs] by (cases "split_str sep cs") simp_all

lemma split_prepend_text:
  "CHR '']'' \<notin> set p \<Longrightarrow>
     split_str '']]'' (p @ s) = (p @ hd (split_str '']]'' s)) # tl (split_str '']]'' s)"
proof (induction p)
  case Nil
  show ?case using split_str_not_Nil[of "'']]''" s] by (simp del: split_str.simps)
next
  case (Cons x p)
  then have x: "x \<noteq> CHR '']''" and ih: "split_str '']]'' (p @ s)
      = (p @ hd (split_str '']]'' s)) # tl (split_str '']]'' s)" by auto
  from x have "\<not> prefix '']]'' (x # (p @ s))" by simp
  from split_str_Cons_no[OF this] ih show ?case by (simp del: split_str.simps)
qed

lemma split_prepend_close:
  assumes "\<not> prefix '']'' s"
  shows "split_str '']]'' (CHR '']'' # s)
           = (CHR '']'' # hd (split_str '']]'' s)) # tl (split_str '']]'' s)"
proof -
  from assms have "\<not> prefix '']]'' (CHR '']'' # s)" by simp
  then show ?thesis by (rule split_str_Cons_no)
qed

lemma split_prepend_single:
  assumes i: "list_all not_bracket inner" and s: "\<not> prefix '']'' s"
  shows "split_str '']]'' (render (Single inner) @ s)
           = (render (Single inner) @ hd (split_str '']]'' s)) # tl (split_str '']]'' s)"
proof -
  have c: "CHR '']'' \<notin> set (CHR ''['' # inner)"
    using i by (auto simp: list_all_iff not_bracket_def)
  have "render (Single inner) @ s = (CHR ''['' # inner) @ (CHR '']'' # s)" by simp
  then have "split_str '']]'' (render (Single inner) @ s)
      = ((CHR ''['' # inner) @ hd (split_str '']]'' (CHR '']'' # s)))
          # tl (split_str '']]'' (CHR '']'' # s))"
    by (simp only: split_prepend_text[OF c])
  then show ?thesis by (simp add: split_prepend_close[OF s] del: split_str.simps)
qed

lemma find_cat_through_text:
  "list_all not_bracket p \<Longrightarrow> CHR 0x0A \<notin> set p \<Longrightarrow> find_cat (p @ x) = find_cat x"
  by (rule find_cat_skip_list) (auto simp: list_all_iff not_bracket_def)

lemma find_cat_through_single:
  assumes i: "list_all not_bracket inner" and nl: "CHR 0x0A \<notin> set inner"
  shows "find_cat (render (Single inner) @ x) = find_cat x"
proof -
  have "find_cat ((inner @ '']'') @ x) = find_cat x"
    using i nl by (intro find_cat_skip_list) (auto simp: list_all_iff not_bracket_def)
  then have in_: "find_cat (inner @ CHR '']'' # x) = find_cat x" by simp
  have "hd (inner @ CHR '']'' # x) \<noteq> CHR ''[''"
    using i by (cases inner) (simp_all add: not_bracket_def)
  then have "cat_at (CHR ''['' # inner @ CHR '']'' # x) = None"
    by (cases "inner @ CHR '']'' # x") (simp_all add: cat_at_def)
  with in_ show ?thesis by (simp split: option.splits)
qed

lemma double_marker_iff:
  assumes i: "list_all not_bracket inner"
  shows "cat_at (render (Double inner)) = Some m \<longleftrightarrow>
           m = render (Double inner) \<and> prefix ''Category:'' inner"
proof
  assume "cat_at (render (Double inner)) = Some m"
  from cat_at_SomeD[OF this] obtain name rest where
    d: "render (Double inner) = marker name @ rest" and n: "list_all not_bracket name"
    and m: "m = marker name" by blast
  from d have "inner @ CHR '']'' # '']'' = (''Category:'' @ name) @ CHR '']'' # (CHR '']'' # rest)"
    by (simp add: marker_def)
  then have "takeWhile not_bracket (inner @ CHR '']'' # '']'')
      = takeWhile not_bracket ((''Category:'' @ name) @ CHR '']'' # (CHR '']'' # rest))"
    by (rule arg_cong)
  moreover have "list_all not_bracket (''Category:'' @ name)"
    using n by (simp add: not_bracket_def)
  ultimately have e: "inner = ''Category:'' @ name"
    by (simp only: takeWhile_name[OF i] takeWhile_name)
  with m show "m = render (Double inner) \<and> prefix ''Category:'' inner"
    by (simp add: marker_def)
next
  assume a: "m = render (Double inner) \<and> prefix ''Category:'' inner"
  then obtain name where e: "inner = ''Category:'' @ name" by (auto simp: prefix_def)
  with i have "list_all not_bracket name" by simp
  from cat_at_marker[OF this, of "[]"] a e show "cat_at (render (Double inner)) = Some m"
    by (simp add: marker_def)
qed

lemma find_cat_double:
  assumes i: "list_all not_bracket inner" and nl: "CHR 0x0A \<notin> set inner"
  shows "find_cat (render (Double inner))
           = (if is_line_marker (render (Double inner)) then Some (render (Double inner)) else None)"
proof -
  have "find_cat ((inner @ '']]'') @ []) = find_cat []"
    using i nl by (intro find_cat_skip_list) (auto simp: list_all_iff not_bracket_def)
  then have in_: "find_cat (inner @ '']]'') = None" by simp
  have "hd (inner @ '']]'') \<noteq> CHR ''[''"
    using i by (cases inner) (simp_all add: not_bracket_def)
  then have "cat_at (CHR ''['' # inner @ '']]'') = None"
    by (cases "inner @ '']]''") (simp_all add: cat_at_def)
  with in_ have one: "find_cat (CHR ''['' # inner @ '']]'') = None" by simp
  have nlr: "CHR 0x0A \<notin> set (render (Double inner))" using nl by simp
  show ?thesis
  proof (cases "cat_at (render (Double inner))")
    case None
    then have "\<not> is_line_marker (render (Double inner))" by (simp add: is_line_marker_def)
    with None one show ?thesis by simp
  next
    case (Some m)
    with double_marker_iff[OF i, of m] have m: "m = render (Double inner)" by simp
    with Some nlr have "is_line_marker (render (Double inner))"
      by (simp add: is_line_marker_def)
    with Some m one show ?thesis by simp
  qed
qed

lemma line_marker_open2: "is_line_marker m \<Longrightarrow> prefix ''[['' m"
  by (auto simp: is_line_marker_iff marker_def)

lemma text_not_marker: "list_all not_bracket p \<Longrightarrow> \<not> is_line_marker p"
  by (auto dest!: line_marker_open2 simp: prefix_def not_bracket_def)

lemma single_not_marker: "list_all not_bracket inner \<Longrightarrow> \<not> is_line_marker (render (Single inner))"
  by (cases inner) (auto dest!: line_marker_open2 simp: not_bracket_def)

lemma line_cats_prepend:
  assumes sp: "split_str '']]'' (p @ s)
                 = (p @ hd (split_str '']]'' s)) # tl (split_str '']]'' s)"
    and fc: "\<And>x. find_cat (p @ x) = find_cat x"
  shows "line_cats (p @ s) = line_cats s"
proof -
  obtain h t where ht: "split_str '']]'' s = h # t"
    using split_str_not_Nil[of "'']]''" s] by (cases "split_str '']]'' s") auto
  from sp ht have sp': "split_str '']]'' (p @ s) = (p @ h) # t" by simp
  show ?thesis
  proof (cases t)
    case Nil
    with sp' ht show ?thesis by (simp add: line_cats_def split_into_cats_def)
  next
    case (Cons a as)
    have "find_cat (p @ (h @ '']]'')) = find_cat (h @ '']]'')" by (rule fc)
    with sp' ht Cons show ?thesis
      by (simp add: line_cats_def split_into_cats_def)
  qed
qed

lemma line_cats_double:
  assumes "CHR '']'' \<notin> set a"
  shows "line_cats (a @ '']]'' @ s)
           = (case find_cat (a @ '']]'') of None \<Rightarrow> line_cats s | Some m \<Rightarrow> m # line_cats s)"
proof -
  have "split_str '']]'' (a @ '']]'' @ s) = a # split_str '']]'' s"
    by (rule split_close_absent[OF assms])
  then have "split_into_cats (a @ '']]'' @ s) = (a @ '']]'') # split_into_cats s"
    by (simp add: split_into_cats_def del: split_str.simps)
  then have "butlast (split_into_cats (a @ '']]'' @ s))
               = (a @ '']]'') # butlast (split_into_cats s)"
    using split_into_cats_not_Nil[of s] by simp
  then show ?thesis
    unfolding line_cats_def by (simp only: map_filter_simps)
qed

lemma line_cats_tokens:
  "list_all token_ok ts \<Longrightarrow> CHR 0x0A \<notin> set (concat (map render ts)) \<Longrightarrow>
     line_cats (concat (map render ts)) = filter is_line_marker (map render ts)"
proof (induction ts)
  case Nil
  show ?case by (simp add: line_cats_def split_into_cats_def)
next
  case (Cons t ts)
  let ?s = "concat (map render ts)"
  from Cons.prems have ok: "list_all token_ok ts" and nls: "CHR 0x0A \<notin> set ?s"
    and nlt: "CHR 0x0A \<notin> set (render t)" and okt: "token_ok t" by simp_all
  from Cons.IH[OF ok nls] have ih: "line_cats ?s = filter is_line_marker (map render ts)" .
  show ?case
  proof (cases t)
    case (Text p)
    with okt nlt have p: "list_all not_bracket p" "CHR 0x0A \<notin> set p" by simp_all
    from p(1) have "CHR '']'' \<notin> set p" by (auto simp: list_all_iff not_bracket_def)
    from line_cats_prepend[OF split_prepend_text[OF this] find_cat_through_text[OF p]]
    have "line_cats (p @ ?s) = line_cats ?s" .
    with ih Text text_not_marker[OF p(1)] show ?thesis by simp
  next
    case (Single i)
    with okt nlt have i: "list_all not_bracket i" "CHR 0x0A \<notin> set i" by simp_all
    from line_cats_prepend[OF split_prepend_single[OF i(1) flat_no_close_first[OF ok]]
        find_cat_through_single[OF i]]
    have "line_cats (render (Single i) @ ?s) = line_cats ?s" .
    with ih Single single_not_marker[OF i(1)] show ?thesis by simp
  next
    case (Double i)
    with okt nlt have i: "list_all not_bracket i" "CHR 0x0A \<notin> set i" by simp_all
    have c: "CHR '']'' \<notin> set (''[['' @ i)"
      using i(1) by (auto simp: list_all_iff not_bracket_def)
    have "line_cats ((''[['' @ i) @ '']]'' @ ?s)
            = (case find_cat ((''[['' @ i) @ '']]'') of
                 None \<Rightarrow> line_cats ?s | Some m \<Rightarrow> m # line_cats ?s)"
      by (rule line_cats_double[OF c])
    then have "line_cats (render (Double i) @ ?s)
            = (case find_cat (render (Double i)) of
                 None \<Rightarrow> line_cats ?s | Some m \<Rightarrow> m # line_cats ?s)"
      by simp
    with find_cat_double[OF i] ih Double show ?thesis by simp
  qed
qed


section \<open>Replacement in a line with flat brackets\<close>

lemma replace_skip_single:
  assumes c: "is_line_marker c" and i: "list_all not_bracket inner"
  shows "replace_by_empty c (render (Single inner) @ rest)
           = render (Single inner) @ replace_by_empty c rest"
proof -
  from line_marker_hd[OF c] obtain r where r: "c = CHR ''['' # CHR ''['' # r" by blast
  have "hd (inner @ CHR '']'' # rest) \<noteq> CHR ''[''"
    using i by (cases inner) (simp_all add: not_bracket_def)
  with r have np: "\<not> prefix c (CHR ''['' # inner @ CHR '']'' # rest)"
    by (cases "inner @ CHR '']'' # rest") simp_all
  have no: "CHR ''['' \<notin> set (inner @ '']'')"
    using i by (auto simp: list_all_iff not_bracket_def)
  have "replace_by_empty c (render (Single inner) @ rest)
          = CHR ''['' # replace_by_empty c ((inner @ '']'') @ rest)"
    using np by simp
  also have "replace_by_empty c ((inner @ '']'') @ rest)
          = (inner @ '']'') @ replace_by_empty c rest"
    using c no by (rule replace_skip_text)
  finally show ?thesis by simp
qed

lemma replace_skip_double:
  assumes c: "is_line_marker c" and i: "list_all not_bracket inner"
    and ne: "render (Double inner) \<noteq> c"
  shows "replace_by_empty c (render (Double inner) @ rest)
           = render (Double inner) @ replace_by_empty c rest"
proof -
  from c obtain n1 where c1: "c = marker n1" and n1: "list_all not_bracket n1"
    by (auto simp: is_line_marker_iff line_name_def)
  have p0: "\<not> prefix c (render (Double inner) @ rest)"
  proof
    assume "prefix c (render (Double inner) @ rest)"
    then obtain y where "render (Double inner) @ rest = marker n1 @ y"
      by (auto simp: prefix_def c1)
    then have "inner @ CHR '']'' # (CHR '']'' # rest)
                 = (''Category:'' @ n1) @ CHR '']'' # (CHR '']'' # y)"
      by (simp add: marker_def)
    then have "takeWhile not_bracket (inner @ CHR '']'' # (CHR '']'' # rest))
                 = takeWhile not_bracket ((''Category:'' @ n1) @ CHR '']'' # (CHR '']'' # y))"
      by (rule arg_cong)
    moreover have "list_all not_bracket (''Category:'' @ n1)"
      using n1 by (simp add: not_bracket_def)
    ultimately have "inner = ''Category:'' @ n1"
      by (simp only: takeWhile_name[OF i] takeWhile_name)
    with ne show False by (simp add: c1 marker_def)
  qed
  have "hd (inner @ '']]'' @ rest) \<noteq> CHR ''[''"
    using i by (cases inner) (simp_all add: not_bracket_def)
  then have p1: "\<not> prefix c (CHR ''['' # inner @ '']]'' @ rest)"
    by (cases "inner @ '']]'' @ rest") (simp_all add: c1 marker_def)
  have no: "CHR ''['' \<notin> set (inner @ '']]'')"
    using i by (auto simp: list_all_iff not_bracket_def)
  have "replace_by_empty c (render (Double inner) @ rest)
          = CHR ''['' # replace_by_empty c (CHR ''['' # inner @ '']]'' @ rest)"
    using p0 by simp
  also have "replace_by_empty c (CHR ''['' # inner @ '']]'' @ rest)
          = CHR ''['' # replace_by_empty c ((inner @ '']]'') @ rest)"
    using p1 by simp
  also have "replace_by_empty c ((inner @ '']]'') @ rest)
          = (inner @ '']]'') @ replace_by_empty c rest"
    using c no by (rule replace_skip_text)
  finally show ?thesis by simp
qed

lemma replace_tokens:
  assumes c: "is_line_marker c"
  shows "list_all token_ok ts \<Longrightarrow>
           replace_by_empty c (concat (map render ts))
             = concat (map render (filter (\<lambda>t. render t \<noteq> c) ts))"
proof (induction ts)
  case Nil
  show ?case by simp
next
  case (Cons t ts)
  let ?s = "concat (map render ts)"
  from Cons have ih: "replace_by_empty c ?s
      = concat (map render (filter (\<lambda>t. render t \<noteq> c) ts))"
    and okt: "token_ok t" by simp_all
  show ?case
  proof (cases "render t = c")
    case True
    with replace_self_append[OF line_marker_not_Nil[OF c], of ?s] ih show ?thesis by simp
  next
    case False
    have "replace_by_empty c (render t @ ?s) = render t @ replace_by_empty c ?s"
    proof (cases t)
      case (Text p)
      with okt have "CHR ''['' \<notin> set p" by (auto simp: list_all_iff not_bracket_def)
      from replace_skip_text[OF c this] Text show ?thesis by simp
    next
      case (Single i)
      with okt replace_skip_single[OF c, of i ?s] show ?thesis by simp
    next
      case (Double i)
      with okt False replace_skip_double[OF c, of i ?s] show ?thesis by simp
    qed
    with ih False show ?thesis by simp
  qed
qed

lemma removes_tokens:
  "\<forall>c\<in>set cats. is_line_marker c \<Longrightarrow> list_all token_ok ts \<Longrightarrow>
     removes cats (concat (map render ts))
       = concat (map render (filter (\<lambda>t. render t \<notin> set cats) ts))"
proof (induction cats arbitrary: ts)
  case Nil
  show ?case by (simp add: removes_Nil)
next
  case (Cons c cats)
  from Cons.prems(1) have c: "is_line_marker c" and cs: "\<forall>c\<in>set cats. is_line_marker c"
    by simp_all
  have ok: "list_all token_ok (filter (\<lambda>t. render t \<noteq> c) ts)"
    using Cons.prems(2) by (simp add: list_all_iff)
  have "removes (c # cats) (concat (map render ts))
          = removes cats (concat (map render (filter (\<lambda>t. render t \<noteq> c) ts)))"
    by (simp add: removes_Cons replace_tokens[OF c Cons.prems(2)])
  also have "\<dots> = concat (map render (filter (\<lambda>t. render t \<notin> set cats)
                        (filter (\<lambda>t. render t \<noteq> c) ts)))"
    by (rule Cons.IH[OF cs ok])
  also have "\<dots> = concat (map render (filter (\<lambda>t. render t \<notin> set (c # cats)) ts))"
    by (simp add: conj_commute)
  finally show ?case .
qed

section \<open>The second scan\<close>

lemma no_cats_line_step:
  assumes nl: "CHR 0x0A \<notin> set l" and e: "line_cats l = []"
  shows "detected_categories (line_step st l) = detected_categories st"
proof (cases "should_be_moving st")
  case True
  from line_step_moving[OF True, of l] e show ?thesis by simp
next
  case False
  show ?thesis
  proof (cases "should_be_moving (line_step st l)")
    case True
    from flip_line_cats[OF False True nl] e show ?thesis by simp
  next
    case no: False
    then have "line_step st l = st" by (rule line_step_trailing)
    then show ?thesis by simp
  qed
qed

lemma foldl_no_cats_line_step:
  "\<forall>l\<in>set ls. CHR 0x0A \<notin> set l \<and> line_cats l = [] \<Longrightarrow>
     detected_categories (foldl line_step st ls) = detected_categories st"
  by (induction ls arbitrary: st) (simp_all add: no_cats_line_step)

lemma flat_line_after_removes:
  assumes f: "flat_brackets l" and nl: "CHR 0x0A \<notin> set l"
    and cs: "\<forall>c\<in>set cats. is_line_marker c" and sub: "set (line_cats l) \<subseteq> set cats"
  shows "CHR 0x0A \<notin> set (removes cats l) \<and> line_cats (removes cats l) = []"
proof -
  from f obtain ts where "tokens l = Some ts" by (auto simp: flat_brackets_def)
  from tokens_sound[OF this] have l: "l = concat (map render ts)" and ok: "list_all token_ok ts"
    by simp_all
  let ?ts' = "filter (\<lambda>t. render t \<notin> set cats) ts"
  have r: "removes cats l = concat (map render ?ts')"
    unfolding l by (rule removes_tokens[OF cs ok])
  have ok': "list_all token_ok ?ts'" using ok by (simp add: list_all_iff)
  have nl': "CHR 0x0A \<notin> set (concat (map render ?ts'))"
    using nl by (auto simp: l)
  have lc: "line_cats l = filter is_line_marker (map render ts)"
    unfolding l using ok nl by (intro line_cats_tokens) (simp_all add: l)
  have "filter is_line_marker (map render ?ts') = []"
  proof (rule ccontr)
    assume "filter is_line_marker (map render ?ts') \<noteq> []"
    then obtain m where "m \<in> set (filter is_line_marker (map render ?ts'))"
      by (meson last_in_set)
    then obtain t where t: "t \<in> set ts" "render t \<notin> set cats" "is_line_marker (render t)"
      by auto
    then have "render t \<in> set (line_cats l)" by (auto simp: lc)
    with sub t(2) show False by blast
  qed
  with line_cats_tokens[OF ok' nl'] nl' show ?thesis by (simp add: r)
qed

lemma second_scan_flat:
  assumes b: "list_all flat_brackets (split_str [CHR 0x0A] text)"
  shows "detected_categories (scan (page_text (scan text))) = []"
proof -
  let ?L = "split_str [CHR 0x0A] text"
  let ?init = "\<lparr>should_be_moving = False, detected_categories = [], page_text = text\<rparr>"
  let ?C = "detected_categories (scan text)"
  let ?T = "page_text (scan text)"
  let ?initT = "\<lparr>should_be_moving = False, detected_categories = [], page_text = ?T\<rparr>"
  have nls: "\<forall>l\<in>set (rev ?L). CHR 0x0A \<notin> set l"
    by (auto dest: split_char_lines)
  have "\<not> should_be_moving ?init" by simp
  from foldl_line_step_structure[OF this nls] obtain ls1 ls2 where
    ls: "rev ?L = ls1 @ ls2"
    and tr: "\<forall>l\<in>set ls1. \<not> should_be_moving (line_step ?init l)"
    and C: "?C = concat (map line_cats ls2)"
    by (auto simp: scan_def)
  have cs: "\<forall>c\<in>set ?C. is_line_marker c" by (rule scan_cats)
  have T: "?T = removes ?C text" by (rule scan_text)
  have "split_str [CHR 0x0A] ?T = map (removes ?C) ?L"
    unfolding T by (rule split_removes[OF cs])
  then have "rev (split_str [CHR 0x0A] ?T) = map (removes ?C) (rev ?L)"
    by (simp add: rev_map)
  then have lines: "rev (split_str [CHR 0x0A] ?T) = map (removes ?C) ls1 @ map (removes ?C) ls2"
    by (simp add: ls)
  have noop: "\<forall>l\<in>set (map (removes ?C) ls1). line_step ?initT l = ?initT"
  proof
    fix l' assume "l' \<in> set (map (removes ?C) ls1)"
    then obtain l where l: "l \<in> set ls1" and l': "l' = removes ?C l" by auto
    from l ls have "l \<in> set (rev ?L)" by simp
    with nls have nl: "CHR 0x0A \<notin> set l" by blast
    from tr l have "\<not> should_be_moving (line_step ?init l)" by blast
    from trailing_line_after_removes[OF this nl cs, of ?initT] l'
    show "line_step ?initT l' = ?initT" by simp
  qed
  have free: "\<forall>l\<in>set (map (removes ?C) ls2). CHR 0x0A \<notin> set l \<and> line_cats l = []"
  proof
    fix l' assume "l' \<in> set (map (removes ?C) ls2)"
    then obtain l where l: "l \<in> set ls2" and l': "l' = removes ?C l" by auto
    from l ls have inL: "l \<in> set ?L" by (metis Un_iff set_append set_rev)
    with nls have nl: "CHR 0x0A \<notin> set l" by simp
    from b inL have bl: "flat_brackets l" by (simp add: list_all_iff)
    from l have "set (line_cats l) \<subseteq> set ?C" by (auto simp: C)
    from flat_line_after_removes[OF bl nl cs this] l'
    show "CHR 0x0A \<notin> set l' \<and> line_cats l' = []" by simp
  qed
  have "scan ?T = foldl line_step ?initT (rev (split_str [CHR 0x0A] ?T))"
    by (rule scan_def)
  also have "\<dots> = foldl line_step ?initT (map (removes ?C) ls1 @ map (removes ?C) ls2)"
    by (simp only: lines)
  also have "\<dots> = foldl line_step (foldl line_step ?initT (map (removes ?C) ls1))
                    (map (removes ?C) ls2)"
    by (rule foldl_append)
  also have "foldl line_step ?initT (map (removes ?C) ls1) = ?initT"
    by (rule foldl_line_step_noop[OF noop])
  finally have "scan ?T = foldl line_step ?initT (map (removes ?C) ls2)" .
  with foldl_no_cats_line_step[OF free, of ?initT] show ?thesis by simp
qed

section \<open>Documents that are trailing as a whole\<close>

lemma line_marker_strip: "is_line_marker m \<Longrightarrow> strip m = m"
  by (auto simp: is_line_marker_iff strip_marker)

lemma strip_spaces_marker:
  assumes "is_line_marker m" and "list_all is_space ws1" and "list_all is_space ws2"
  shows "strip (ws1 @ m @ ws2) = m"
proof -
  from assms(1) obtain name where m: "m = marker name" by (auto simp: is_line_marker_iff)
  show ?thesis
    unfolding m using assms(2,3)
    by (rule strip_sandwich)
      (simp_all add: marker_not_Nil marker_last, simp_all add: marker_def is_space_def)
qed

lemma trailing_line_step:
  assumes tl: "trailing_line line" and nl: "CHR 0x0A \<notin> set line"
    and t: "\<not> should_be_moving st"
  shows "line_step st line = st"
proof (cases "list_all is_space line")
  case True
  then show ?thesis using t by (rule spaces_line_step)
next
  case False
  with tl have lm: "is_line_marker (strip line)" by (simp add: trailing_line_def)
  from strip_decomp[of line] obtain ws1 ws2 where
    d: "line = ws1 @ strip line @ ws2" and w1: "list_all is_space ws1"
    and w2: "list_all is_space ws2" by blast
  from d nl have "CHR 0x0A \<notin> set ws1" by (metis Un_iff set_append)
  from spaces_marker_line_step[OF lm w1 w2 this t] d show ?thesis by simp
qed

lemma line_step_trailing_line:
  assumes t: "\<not> should_be_moving (line_step st line)" and nl: "CHR 0x0A \<notin> set line"
  shows "trailing_line line"
proof -
  from trailing_line_shape[OF t nl]
  consider (spaces) "list_all is_space line"
    | (marker) ws1 m ws2 where "line = ws1 @ m @ ws2" "is_line_marker m"
        "list_all is_space ws1" "list_all is_space ws2"
    by blast
  then show ?thesis
  proof cases
    case spaces
    then show ?thesis by (simp add: trailing_line_def)
  next
    case marker
    from strip_spaces_marker[OF marker(2,3,4)] marker(1,2) show ?thesis
      by (simp add: trailing_line_def)
  qed
qed

lemma foldl_line_step_all_trailing:
  "\<not> should_be_moving (foldl line_step st ls) \<Longrightarrow>
     \<forall>l\<in>set ls. \<not> should_be_moving (line_step st l)"
proof (induction ls)
  case Nil
  show ?case by simp
next
  case (Cons l ls)
  from Cons.prems have n: "\<not> should_be_moving (line_step st l)"
    using foldl_line_step_mono[of "line_step st l" ls] by auto
  then have e: "line_step st l = st" by (rule line_step_trailing)
  from Cons.prems have "\<not> should_be_moving (foldl line_step st ls)" by (simp add: e)
  from Cons.IH[OF this] n show ?case by simp
qed

lemma scan_flag_document:
  "should_be_moving (scan t) \<longleftrightarrow> \<not> list_all trailing_line (split_str [CHR 0x0A] t)"
proof -
  let ?L = "split_str [CHR 0x0A] t"
  let ?init = "\<lparr>should_be_moving = False, detected_categories = [], page_text = t\<rparr>"
  have nls: "\<forall>l\<in>set ?L. CHR 0x0A \<notin> set l" by (auto dest: split_char_lines)
  have s: "scan t = foldl line_step ?init (rev ?L)" by (rule scan_def)
  show ?thesis
  proof (cases "list_all trailing_line ?L")
    case True
    have "\<forall>l\<in>set (rev ?L). line_step ?init l = ?init"
    proof
      fix l assume "l \<in> set (rev ?L)"
      then have l: "l \<in> set ?L" by simp
      with True have "trailing_line l" by (simp add: list_all_iff)
      moreover from l nls have "CHR 0x0A \<notin> set l" by blast
      ultimately show "line_step ?init l = ?init" by (rule trailing_line_step) simp
    qed
    then have "foldl line_step ?init (rev ?L) = ?init" by (rule foldl_line_step_noop)
    with True show ?thesis by (simp add: s)
  next
    case False
    have "should_be_moving (scan t)"
    proof (rule ccontr)
      assume "\<not> should_be_moving (scan t)"
      then have "\<not> should_be_moving (foldl line_step ?init (rev ?L))" by (simp add: s)
      from foldl_line_step_all_trailing[OF this]
      have a: "\<forall>l\<in>set ?L. \<not> should_be_moving (line_step ?init l)" by simp
      have "\<forall>l\<in>set ?L. trailing_line l"
      proof
        fix l assume l: "l \<in> set ?L"
        with a have "\<not> should_be_moving (line_step ?init l)" by blast
        moreover from l nls have "CHR 0x0A \<notin> set l" by blast
        ultimately show "trailing_line l" by (rule line_step_trailing_line)
      qed
      with False show False by (simp add: list_all_iff)
    qed
    with False show ?thesis by simp
  qed
qed

section \<open>The claims\<close>

subsection \<open>C1: running the move twice\<close>

text \<open>
  Claim C1 says that for every document a second run of the move yields the text of the
  first run, because the second run finds nothing to relocate. The first run deletes
  markers from the text, and where a marker stands inside another pair of brackets the
  deletion can join the text on both sides of it into a new marker: in
  \<open>[[Cate[[Category:A]]gory:B]] x\<close> the first run relocates
  \<open>[[Category:A]]\<close>, which leaves \<open>[[Category:B]] x\<close>, and the second run relocates
  \<open>[[Category:B]]\<close>.
\<close>

theorem second_run_relocates_example:
  "move_cats_text ''[[Cate[[Category:A]]gory:B]] x'' = ''[[Category:B]] x\<newline>[[Category:A]]''
   \<and> detected_categories (scan (move_cats_text ''[[Cate[[Category:A]]gory:B]] x''))
       = [''[[Category:B]]'']
   \<and> move_cats_text (move_cats_text ''[[Cate[[Category:A]]gory:B]] x'')
       = '' x\<newline>[[Category:A]]\<newline>[[Category:B]]''
   \<and> move_cats_text (move_cats_text ''[[Cate[[Category:A]]gory:B]] x'')
       \<noteq> move_cats_text ''[[Cate[[Category:A]]gory:B]] x''"
  by code_simp

text \<open>
  Claim C1, as amended. For every document whose lines have flat brackets (balanced and not
  nested, as ordinary links, external links and category markers are), the second run
  relocates nothing and returns the text of the first run: running the move twice yields the
  text of running it once. For every document, the categories the first run appends are
  trailing for the second run, which relocates exactly the categories that a scan of the text
  left by the first run's deletions relocates; when that scan relocates nothing, the second run
  returns the text of the first run unchanged.
\<close>

theorem second_run:
  "(list_all flat_brackets (split_str [CHR 0x0A] text)
      \<longrightarrow> detected_categories (scan (move_cats_text text)) = []
          \<and> move_cats_text (move_cats_text text) = move_cats_text text)
   \<and> detected_categories (scan (move_cats_text text))
       = detected_categories (scan (page_text (scan text)))
   \<and> (detected_categories (scan (page_text (scan text))) = []
        \<longrightarrow> move_cats_text (move_cats_text text) = move_cats_text text)"
proof -
  let ?T = "page_text (scan text)"
  let ?C = "detected_categories (scan text)"
  let ?o = "move_cats_text text"
  have o: "?o = rstrip_nl ?T @ attach ?C" by (rule move_cats_text_eq)
  have a: "detected_categories (scan ?o) = detected_categories (scan ?T)"
    using scan_attach[OF scan_cats, of "rstrip_nl ?T" "text"] scan_rstrip_nl[of ?T]
    by (simp add: o)
  have b: "move_cats_text ?o = ?o" if e: "detected_categories (scan ?T) = []"
  proof -
    from e a have c2: "detected_categories (scan ?o) = []" by simp
    then have "page_text (scan ?o) = ?o"
      using scan_text[of ?o] by (simp add: removes_Nil)
    with c2 have m: "move_cats_text ?o = rstrip_nl ?o"
      by (simp add: move_cats_text_eq attach_def)
    have "\<not> suffix [CHR 0x0A] ?o"
    proof (cases "?C = []")
      case True
      then show ?thesis
        using rstrip_nl_no_newline_end[of ?T] by (simp add: o attach_def)
    next
      case False
      then show ?thesis
        unfolding o by (rule attach_no_newline_end) (rule scan_cats)
    qed
    with m show ?thesis by (simp add: rstrip_nl_id)
  qed
  have c: "detected_categories (scan ?o) = [] \<and> move_cats_text ?o = ?o"
    if f: "list_all flat_brackets (split_str [CHR 0x0A] text)"
  proof -
    from f have e: "detected_categories (scan ?T) = []" by (rule second_scan_flat)
    with a b show ?thesis by simp
  qed
  from a b c show ?thesis by blast
qed

theorem second_run_witness:
  "list_all flat_brackets
     (split_str [CHR 0x0A]
        ''See [[Foo|bar]] and [http://x y].[[Category:A]]\<newline>a [[b]] [[Category:B]] c\<newline>\<newline>[[Category:C]]'')
   \<and> move_cats_text
         ''See [[Foo|bar]] and [http://x y].[[Category:A]]\<newline>a [[b]] [[Category:B]] c\<newline>\<newline>[[Category:C]]''
       = ''See [[Foo|bar]] and [http://x y].\<newline>a [[b]]  c\<newline>\<newline>[[Category:C]]\<newline>[[Category:B]]\<newline>[[Category:A]]''
   \<and> detected_categories
         (scan (move_cats_text
            ''See [[Foo|bar]] and [http://x y].[[Category:A]]\<newline>a [[b]] [[Category:B]] c\<newline>\<newline>[[Category:C]]''))
       = []
   \<and> move_cats_text
         (move_cats_text
            ''See [[Foo|bar]] and [http://x y].[[Category:A]]\<newline>a [[b]] [[Category:B]] c\<newline>\<newline>[[Category:C]]'')
       = move_cats_text
           ''See [[Foo|bar]] and [http://x y].[[Category:A]]\<newline>a [[b]] [[Category:B]] c\<newline>\<newline>[[Category:C]]''
   \<and> \<not> list_all flat_brackets (split_str [CHR 0x0A] ''a [[File:x|[[b]]]] [[Category:A]]\<newline>c'')
   \<and> detected_categories (scan (page_text (scan ''a [[File:x|[[b]]]] [[Category:A]]\<newline>c''))) = []
   \<and> move_cats_text (move_cats_text ''a [[File:x|[[b]]]] [[Category:A]]\<newline>c'')
       = move_cats_text ''a [[File:x|[[b]]]] [[Category:A]]\<newline>c''"
proof -
  let ?t = "''See [[Foo|bar]] and [http://x y].[[Category:A]]\<newline>a [[b]] [[Category:B]] c\<newline>\<newline>[[Category:C]]''"
  let ?u = "''a [[File:x|[[b]]]] [[Category:A]]\<newline>c''"
  have h1: "list_all flat_brackets (split_str [CHR 0x0A] ?t)" by code_simp
  have v1: "move_cats_text ?t
      = ''See [[Foo|bar]] and [http://x y].\<newline>a [[b]]  c\<newline>\<newline>[[Category:C]]\<newline>[[Category:B]]\<newline>[[Category:A]]''"
    by code_simp
  have n2: "\<not> list_all flat_brackets (split_str [CHR 0x0A] ?u)" by code_simp
  have h2: "detected_categories (scan (page_text (scan ?u))) = []" by code_simp
  from second_run[of ?t] h1
  have r1: "detected_categories (scan (move_cats_text ?t)) = []
            \<and> move_cats_text (move_cats_text ?t) = move_cats_text ?t"
    by blast
  from second_run[of ?u] h2 have r2: "move_cats_text (move_cats_text ?u) = move_cats_text ?u"
    by blast
  from h1 v1 r1 n2 h2 r2 show ?thesis by blast
qed

subsection \<open>C2: when a fragment ends the trailing region\<close>

text \<open>
  Claim C2 says that a fragment that yields a category never changes the flag, whatever
  else the line holds. For the line \<open>x [[Category:A]]\<close> the only fragment before the
  last yields \<open>[[Category:A]]\<close>, and processing it from the trailing state sets the flag:
  the stripped line is not the category.
\<close>

theorem category_fragment_flips_example:
  "butlast (split_into_cats ''x [[Category:A]]'') = [''x [[Category:A]]'']
   \<and> find_cat ''x [[Category:A]]'' = Some ''[[Category:A]]''
   \<and> should_be_moving
        (frag_step ''x [[Category:A]]''
           \<lparr>should_be_moving = False, detected_categories = [],
            page_text = ''x [[Category:A]]''\<rparr>
           ''x [[Category:A]]'')"
  by code_simp

text \<open>
  Claim C2, as amended. After the iteration for a fragment the flag is set exactly when it
  was set before or the line, stripped of surrounding white space, is not the category the
  fragment yields. So, from the trailing state, a fragment that yields no category sets the
  flag, and a fragment that yields a category sets it unless the stripped line is that
  category and nothing else.
\<close>

theorem fragment_flip_condition:
  "should_be_moving (frag_step line st frag) \<longleftrightarrow>
     should_be_moving st \<or> find_cat frag \<noteq> Some (strip line)"
  by (rule frag_step_flag)

subsection \<open>C3: markers of the trailing region\<close>

text \<open>
  Claim C3 says that a marker met while the scan is in the trailing region stays where it
  is in the text produced, also when the same marker text is relocated from the content
  region. The replacement deletes every occurrence of the relocated text. In the document of
  three lines \<open>[[Category:A]] x\<close>, \<open>[[Category:A]]\<close>, \<open>[[Category:B]]\<close> the scan
  is still in the trailing region after the second line, and the text produced has an empty
  second line.
\<close>

theorem trailing_marker_removed_example:
  "\<not> should_be_moving
          (foldl line_step
             \<lparr>should_be_moving = False, detected_categories = [],
              page_text = ''[[Category:A]] x\<newline>[[Category:A]]\<newline>[[Category:B]]''\<rparr>
             (rev (drop 1 (split_str [CHR 0x0A] ''[[Category:A]] x\<newline>[[Category:A]]\<newline>[[Category:B]]''))))
   \<and> split_str [CHR 0x0A] ''[[Category:A]] x\<newline>[[Category:A]]\<newline>[[Category:B]]''
       = [''[[Category:A]] x'', ''[[Category:A]]'', ''[[Category:B]]'']
   \<and> move_cats_text ''[[Category:A]] x\<newline>[[Category:A]]\<newline>[[Category:B]]''
       = '' x\<newline>\<newline>[[Category:B]]\<newline>[[Category:A]]''
   \<and> split_str [CHR 0x0A] (move_cats_text ''[[Category:A]] x\<newline>[[Category:A]]\<newline>[[Category:B]]'')
       = ['' x'', [], ''[[Category:B]]'', ''[[Category:A]]'']"
  by code_simp

text \<open>
  Claim C3, as amended. Take a line of the document after which the scan is still in the
  trailing region, and a category that one of its fragments yields. Up to that point the scan
  has changed neither the flag, nor the categories found, nor the text of the page. If the
  text of the category is not among the relocated categories, the line is in the text
  produced, unchanged and at the same line number. (When the same text is relocated from the
  content region, the replacement deletes it from this line too.)
\<close>

theorem trailing_marker_kept:
  assumes i: "i < length (split_str [CHR 0x0A] text)"
    and trailing: "\<not> should_be_moving
          (foldl line_step
             \<lparr>should_be_moving = False, detected_categories = [], page_text = text\<rparr>
             (rev (drop i (split_str [CHR 0x0A] text))))"
    and frag: "frag \<in> set (butlast (split_into_cats (split_str [CHR 0x0A] text ! i)))"
    and found: "find_cat frag = Some m"
    and other: "m \<notin> set (detected_categories (scan text))"
  shows "foldl line_step
             \<lparr>should_be_moving = False, detected_categories = [], page_text = text\<rparr>
             (rev (drop i (split_str [CHR 0x0A] text)))
           = \<lparr>should_be_moving = False, detected_categories = [], page_text = text\<rparr>
       \<and> i < length (split_str [CHR 0x0A] (move_cats_text text))
       \<and> split_str [CHR 0x0A] (move_cats_text text) ! i = split_str [CHR 0x0A] text ! i"
proof -
  let ?L = "split_str [CHR 0x0A] text"
  let ?init = "\<lparr>should_be_moving = False, detected_categories = [], page_text = text\<rparr>"
  let ?li = "?L ! i"
  let ?C = "detected_categories (scan text)"
  let ?T = "page_text (scan text)"
  let ?A = "rstrip_nl ?T"
  define st' where "st' = foldl line_step ?init (rev (drop (Suc i) ?L))"
  have "drop i ?L = ?li # drop (Suc i) ?L"
    using i by (simp add: Cons_nth_drop_Suc)
  then have step: "foldl line_step ?init (rev (drop i ?L)) = line_step st' ?li"
    by (simp add: st'_def)
  with trailing have tl: "\<not> should_be_moving (line_step st' ?li)" by simp
  from trailing_line[OF tl frag] found have m: "m = strip ?li" by simp
  have nl_li: "CHR 0x0A \<notin> set ?li"
    using i by (intro split_char_lines[of ?li _ "text"]) simp
  have "frag \<in> set (split_into_cats ?li)"
    using frag by (rule in_set_butlastD)
  from fragment_no_newline[OF this nl_li] have "CHR 0x0A \<notin> set frag" .
  from find_cat_line_marker[OF found this] have lm: "is_line_marker m" .
  from strip_decomp[of ?li] m obtain ws1 ws2 where
    li: "?li = ws1 @ m @ ws2" and w1: "list_all is_space ws1" and w2: "list_all is_space ws2"
    by blast
  have cs: "\<forall>c\<in>set ?C. is_line_marker c" by (rule scan_cats)
  have "\<forall>c\<in>set ?C. replace_by_empty c ?li = ?li"
  proof
    fix c assume c: "c \<in> set ?C"
    with other have "c \<noteq> m" by blast
    from replace_other_marker[OF _ lm this w1 w2] c cs show "replace_by_empty c ?li = ?li"
      by (simp add: li[symmetric])
  qed
  then have keep: "removes ?C ?li = ?li" by (rule removes_id)
  have "?T = removes ?C text" by (rule scan_text)
  then have linesT: "split_str [CHR 0x0A] ?T = map (removes ?C) ?L"
    using split_removes[OF cs, of "text"] by simp
  obtain k where k: "?T = ?A @ replicate k (CHR 0x0A)"
    using rstrip_nl_decomp by blast
  have "split_str [CHR 0x0A] ?T = split_str [CHR 0x0A] (?A @ replicate k (CHR 0x0A))"
    using k by simp
  then have linesA: "map (removes ?C) ?L = split_str [CHR 0x0A] ?A @ replicate k []"
    by (simp only: linesT split_append_newlines)
  have li_ne: "?li \<noteq> []"
    using li line_marker_not_Nil[OF lm] by simp
  have iA: "i < length (split_str [CHR 0x0A] ?A)"
  proof (rule ccontr)
    assume "\<not> i < length (split_str [CHR 0x0A] ?A)"
    then have ge: "length (split_str [CHR 0x0A] ?A) \<le> i" by simp
    from linesA have "length ?L = length (split_str [CHR 0x0A] ?A) + k"
      by (metis length_append length_map length_replicate)
    with i ge have "i - length (split_str [CHR 0x0A] ?A) < k" by simp
    with ge have "(split_str [CHR 0x0A] ?A @ replicate k []) ! i = []"
      by (simp add: nth_append)
    with linesA have "map (removes ?C) ?L ! i = []" by simp
    with i keep li_ne show False by simp
  qed
  have "split_str [CHR 0x0A] ?A ! i = (split_str [CHR 0x0A] ?A @ replicate k []) ! i"
    using iA by (simp add: nth_append)
  also have "\<dots> = map (removes ?C) ?L ! i" by (simp only: linesA)
  also have "\<dots> = ?li" using i keep by simp
  finally have Ai: "split_str [CHR 0x0A] ?A ! i = ?li" .
  have nlC: "\<forall>c\<in>set ?C. CHR 0x0A \<notin> set c"
    using cs by (simp add: line_marker_no_newline)
  have lines_o: "split_str [CHR 0x0A] (move_cats_text text) = split_str [CHR 0x0A] ?A @ ?C"
    by (simp only: move_cats_text_eq split_attach[OF nlC])
  have same: "foldl line_step ?init (rev (drop i ?L)) = ?init"
    using trailing by (rule foldl_line_step_trailing)
  from iA Ai lines_o same show ?thesis by (simp add: nth_append)
qed

theorem trailing_marker_kept_witness:
  "split_str [CHR 0x0A] (move_cats_text ''[[Category:A]] x\<newline>[[Category:B]]'') ! 1 = ''[[Category:B]]''
   \<and> move_cats_text ''[[Category:A]] x\<newline>[[Category:B]]'' = '' x\<newline>[[Category:B]]\<newline>[[Category:A]]''"
proof -
  let ?t = "''[[Category:A]] x\<newline>[[Category:B]]''"
  have 1: "1 < length (split_str [CHR 0x0A] ?t)" by code_simp
  have 2: "\<not> should_be_moving
          (foldl line_step
             \<lparr>should_be_moving = False, detected_categories = [], page_text = ?t\<rparr>
             (rev (drop 1 (split_str [CHR 0x0A] ?t))))" by code_simp
  have 3: "''[[Category:B]]'' \<in> set (butlast (split_into_cats (split_str [CHR 0x0A] ?t ! 1)))"
    by code_simp
  have 4: "find_cat ''[[Category:B]]'' = Some ''[[Category:B]]''" by code_simp
  have 5: "''[[Category:B]]'' \<notin> set (detected_categories (scan ?t))" by code_simp
  have 6: "split_str [CHR 0x0A] ?t ! 1 = ''[[Category:B]]''" by code_simp
  have 7: "move_cats_text ?t = '' x\<newline>[[Category:B]]\<newline>[[Category:A]]''" by code_simp
  from trailing_marker_kept[OF 1 2 3 4 5] 6 7 show ?thesis by simp
qed

subsection \<open>C4: text around the marker\<close>

text \<open>
  Claim C4 says that \<open>find_cat\<close> returns nothing for a fragment with other bracket pairs
  before or after the marker. The pattern starts and ends with \<open>(.*)\<close> and is applied with
  \<open>re.match\<close>, so the bracket pairs are taken by these groups.
\<close>

theorem find_cat_extra_brackets_example:
  "find_cat ''[[a]][[Category:A]][[b]]'' = Some ''[[Category:A]]''"
  by code_simp

text \<open>
  Claim C4, as amended. Whatever precedes a marker on the first line of a fragment and
  whatever follows it, \<open>find_cat\<close> returns a category; it returns this marker when what
  follows yields no category of its own.
\<close>

theorem find_cat_not_anchored:
  assumes "CHR 0x0A \<notin> set pre" and "list_all not_bracket name" and "CHR 0x0A \<notin> set name"
  shows "find_cat (pre @ marker name @ post) \<noteq> None
         \<and> (find_cat post = None
              \<longrightarrow> find_cat (pre @ marker name @ post) = Some (marker name))"
  using find_cat_embedded[OF assms, of post] by (simp split: option.splits)

theorem find_cat_not_anchored_witness:
  "find_cat ''[[a]] [[Category:A]] [[b]]'' = Some ''[[Category:A]]''"
proof -
  have 1: "CHR 0x0A \<notin> set ''[[a]] ''" by simp
  have 2: "list_all not_bracket ''A''" by (simp add: not_bracket_def)
  have 3: "CHR 0x0A \<notin> set ''A''" by simp
  have 4: "find_cat '' [[b]]'' = None" by code_simp
  from find_cat_not_anchored[OF 1 2 3, of "'' [[b]]''"] 4 show ?thesis
    by (simp add: marker_def)
qed

subsection \<open>C5: the order of the relocated categories\<close>

text \<open>
  Claim C5. For the document of four lines \<open>Some text [[Category:A]]\<close>, \<open>More text\<close>,
  \<open>[[Category:B]]\<close>, \<open>Final text [[Category:C]]\<close> the scan relocates C, B, A in this
  order, and the text produced ends with these three categories, one per line, in this
  order.
\<close>

theorem order_preservation_example:
  "detected_categories
     (scan ''Some text [[Category:A]]\<newline>More text\<newline>[[Category:B]]\<newline>Final text [[Category:C]]'')
     = [''[[Category:C]]'', ''[[Category:B]]'', ''[[Category:A]]'']
   \<and> move_cats ''Some text [[Category:A]]\<newline>More text\<newline>[[Category:B]]\<newline>Final text [[Category:C]]''
     = (''Some text \<newline>More text\<newline>\<newline>Final text \<newline>[[Category:C]]\<newline>[[Category:B]]\<newline>[[Category:A]]'',
        True)"
  by code_simp

subsection \<open>C6: what the extractor returns\<close>

text \<open>
  Claim C6 says that \<open>find_cat\<close> returns the first marker of the line, with a name of one
  or more characters. The first group of the pattern is greedy, so the marker returned is the
  last one, and the name may be empty.
\<close>

theorem find_cat_returns_last_example:
  "find_cat ''[[Category:A]] [[Category:B]]'' = Some ''[[Category:B]]''
   \<and> find_cat ''[[Category:]]'' = Some ''[[Category:]]''"
  by code_simp

text \<open>
  Claim C6, as amended. For a line (a text without newline): when \<open>find_cat\<close> returns a
  text, the text is a marker of the line, \<open>[[Category:\<close> then zero or more characters
  other than brackets then \<open>]]\<close>, and no marker of the line starts further right; when
  \<open>find_cat\<close> returns nothing, the line holds no marker; and a line with one marker and no
  other bracket yields that marker.
\<close>

theorem find_cat_last_marker:
  assumes nl: "CHR 0x0A \<notin> set line"
  shows "(\<forall>m. find_cat line = Some m \<longrightarrow>
            (\<exists>pre name post. line = pre @ marker name @ post \<and> m = marker name
                \<and> list_all not_bracket name
                \<and> (\<forall>pre' name' post'. line = pre' @ marker name' @ post'
                       \<and> list_all not_bracket name' \<longrightarrow> length pre' \<le> length pre)))
         \<and> (find_cat line = None \<longrightarrow>
              \<not> (\<exists>pre name post. line = pre @ marker name @ post \<and> list_all not_bracket name))
         \<and> (\<forall>pre name post. line = pre @ marker name @ post
                \<and> list_all not_bracket (pre @ name @ post)
              \<longrightarrow> find_cat line = Some (marker name))"
proof (intro conjI allI impI)
  fix m
  assume fm: "find_cat line = Some m"
  from find_cat_SomeD[OF fm] obtain pre c post where
    l: "line = pre @ c # post" and c: "cat_at (c # post) = Some m" and np: "find_cat post = None"
    by blast
  from cat_at_SomeD[OF c] obtain name rest where
    cp: "c # post = marker name @ rest" and n: "list_all not_bracket name" and m: "m = marker name"
    by blast
  have later: "length pre' \<le> length pre"
    if d: "line = pre' @ marker name' @ post'" and n': "list_all not_bracket name'"
    for pre' name' post'
  proof (rule ccontr)
    assume "\<not> length pre' \<le> length pre"
    then have lt: "length pre < length pre'" by simp
    define q where "q = drop (Suc (length pre)) pre'"
    have "post = drop (Suc (length pre)) line" by (simp add: l)
    also have "\<dots> = q @ marker name' @ post'"
      using lt by (simp add: d q_def)
    finally have post: "post = q @ marker name' @ post'" .
    have "CHR 0x0A \<notin> set q" "CHR 0x0A \<notin> set name'"
      using nl by (auto simp: l post marker_def)
    from find_cat_embedded[OF this(1) n' this(2), of post'] np post show False
      by (simp split: option.splits)
  qed
  show "\<exists>pre name post. line = pre @ marker name @ post \<and> m = marker name
          \<and> list_all not_bracket name
          \<and> (\<forall>pre' name' post'. line = pre' @ marker name' @ post'
                 \<and> list_all not_bracket name' \<longrightarrow> length pre' \<le> length pre)"
    using l cp n m later by (intro exI[of _ pre] exI[of _ name] exI[of _ rest]) auto
next
  assume none: "find_cat line = None"
  show "\<not> (\<exists>pre name post. line = pre @ marker name @ post \<and> list_all not_bracket name)"
  proof
    assume "\<exists>pre name post. line = pre @ marker name @ post \<and> list_all not_bracket name"
    then obtain pre name post where
      d: "line = pre @ marker name @ post" and n: "list_all not_bracket name"
      by blast
    have "CHR 0x0A \<notin> set pre" "CHR 0x0A \<notin> set name"
      using nl by (auto simp: d marker_def)
    from find_cat_embedded[OF this(1) n this(2), of post] none d show False
      by (simp split: option.splits)
  qed
next
  fix pre name post
  assume a: "line = pre @ marker name @ post \<and> list_all not_bracket (pre @ name @ post)"
  then have d: "line = pre @ marker name @ post" and n: "list_all not_bracket name"
    and np: "list_all not_bracket post" by simp_all
  have nls: "CHR 0x0A \<notin> set pre" "CHR 0x0A \<notin> set name" "CHR 0x0A \<notin> set post"
    using nl by (auto simp: d marker_def)
  have "find_cat (post @ []) = find_cat []"
    using np nls(3) by (intro find_cat_skip_list) (auto simp: list_all_iff not_bracket_def)
  then have "find_cat post = None" by simp
  with find_cat_embedded[OF nls(1) n nls(2), of post] d show "find_cat line = Some (marker name)"
    by simp
qed

theorem find_cat_last_marker_witness:
  "CHR 0x0A \<notin> set ''a [[Category:X]] b''
   \<and> find_cat ''a [[Category:X]] b'' = Some ''[[Category:X]]''"
proof -
  have nl: "CHR 0x0A \<notin> set ''a [[Category:X]] b''" by simp
  have d: "''a [[Category:X]] b'' = ''a '' @ marker ''X'' @ '' b''
             \<and> list_all not_bracket (''a '' @ ''X'' @ '' b'')"
    by (simp add: marker_def not_bracket_def)
  from find_cat_last_marker[OF nl] d have "find_cat ''a [[Category:X]] b'' = Some (marker ''X'')"
    by blast
  with nl show ?thesis by (simp add: marker_def)
qed

subsection \<open>C7: categories that are already trailing\<close>

text \<open>
  Claim C7. For the document of three lines \<open>Some content.\<close>, \<open>[[Category:X]]\<close>,
  \<open>[[Category:Y]]\<close> the scan relocates nothing, the text produced is the document, and
  the page is not saved.
\<close>

theorem trailing_categories_example:
  "detected_categories (scan ''Some content.\<newline>[[Category:X]]\<newline>[[Category:Y]]'') = []
   \<and> move_cats ''Some content.\<newline>[[Category:X]]\<newline>[[Category:Y]]''
     = (''Some content.\<newline>[[Category:X]]\<newline>[[Category:Y]]'', False)"
  by code_simp

subsection \<open>C8: removal from the whole text\<close>



subsection \<open>C9: blank lines at the end of the text\<close>

text \<open>
  Claim C9 says that the blank lines at the end of the document are collapsed to none
  before the block of relocated categories is appended, so that the block directly follows
  the last content that is not blank. The comment in the code says the same: its words are
  \<open>remove any blank space at the end of the page\<close>. The scan treats a line of spaces as blank (it
  leaves the scan in the trailing region). The call \<open>rstrip('\n')\<close> removes newline
  characters only. So a line of spaces at the end of the text stays between the content and
  the block. Such a line stands at the end of the text when the page ends with it, and also
  when the last line of the page holds two categories and a space between them, once the
  categories are deleted.
\<close>

theorem blank_line_kept_example:
  "move_cats ''a\<newline>[[Category:A]] [[Category:B]]''
     = (''a\<newline> \<newline>[[Category:A]]\<newline>[[Category:B]]'', True)
   \<and> move_cats ''a [[Category:A]]\<newline>  \<newline>'' = (''a \<newline>  \<newline>[[Category:A]]'', True)
   \<and> line_step \<lparr>should_be_moving = False, detected_categories = [], page_text = []\<rparr> ''  ''
       = \<lparr>should_be_moving = False, detected_categories = [], page_text = []\<rparr>
   \<and> move_cats ''a [[Category:A]]\<newline>\<newline>'' = (''a \<newline>[[Category:A]]'', True)"
  by code_simp

text \<open>
  What the code does for every document: the newline characters at the end of the text
  are removed before the block is appended, and any number of newline characters added at the
  end of a document does not change the text produced.
\<close>

theorem trailing_newlines_stripped:
  "move_cats_text text
     = rstrip_nl (page_text (scan text)) @ attach (detected_categories (scan text))
   \<and> \<not> suffix [CHR 0x0A] (rstrip_nl (page_text (scan text)))
   \<and> (\<exists>k. page_text (scan text) = rstrip_nl (page_text (scan text)) @ replicate k (CHR 0x0A))
   \<and> move_cats_text (text @ replicate n (CHR 0x0A)) = move_cats_text text"
proof -
  have "move_cats_text (text @ replicate n (CHR 0x0A)) = move_cats_text text"
    using scan_append_newlines[of "text" n]
    by (simp add: move_cats_text_eq rstrip_nl_append_newlines)
  then show ?thesis
    using move_cats_text_eq[of "text"] rstrip_nl_no_newline_end[of "page_text (scan text)"]
      rstrip_nl_decomp[of "page_text (scan text)"]
    by simp
qed

subsection \<open>C10: the flag during the scan\<close>

text \<open>
  Claim C10 says that the flag changes from false to true exactly once in every scan. In
  a document that is nothing but a category, such as \<open>[[Category:X]]\<close>, the flag never
  changes.
\<close>

theorem flag_never_flips_example:
  "flips (flag_trace ''[[Category:X]]'') = 0 \<and> \<not> should_be_moving (scan ''[[Category:X]]'')"
  by code_simp

text \<open>
  Claim C10, as amended. During the scan of a document the flag never changes from true to
  false, and it changes from false to true at most once. It changes exactly once when the
  document has a line that is content, that is, a line that is neither white space only nor
  a category marker with white space around it; it never changes when every line of the
  document is trailing.
\<close>

theorem flag_flips_at_most_once:
  "resets (flag_trace text) = 0 \<and> flips (flag_trace text) \<le> 1 \<and>
   (flips (flag_trace text) = 1 \<longleftrightarrow> should_be_moving (scan text)) \<and>
   (flips (flag_trace text) = 1 \<longleftrightarrow> \<not> list_all trailing_line (split_str [CHR 0x0A] text)) \<and>
   (flips (flag_trace text) = 0 \<longleftrightarrow> list_all trailing_line (split_str [CHR 0x0A] text))"
proof -
  let ?st = "\<lparr>should_be_moving = False, detected_categories = [], page_text = text\<rparr>"
  let ?xs = "map should_be_moving (doc_trace ?st (rev (split_str [CHR 0x0A] text)))"
  have ft: "flag_trace text = False # ?xs" by (simp add: flag_trace_def)
  have r: "rising False ?xs" using rising_doc_trace[of ?st] by simp
  have l: "last (False # ?xs) = should_be_moving (scan text)"
    using flag_trace_last[of "text"] ft by simp
  from rising_resets[OF r] rising_flips[OF r] l ft scan_flag_document[of "text"]
  show ?thesis by simp
qed

theorem flag_flips_at_most_once_witness:
  "\<not> list_all trailing_line (split_str [CHR 0x0A] ''Some content.\<newline>[[Category:X]]\<newline> '')
   \<and> flips (flag_trace ''Some content.\<newline>[[Category:X]]\<newline> '') = 1
   \<and> list_all trailing_line (split_str [CHR 0x0A] '' [[Category:X]] \<newline>\<newline>[[Category:Y]]'')
   \<and> flips (flag_trace '' [[Category:X]] \<newline>\<newline>[[Category:Y]]'') = 0"
proof -
  have 1: "\<not> list_all trailing_line (split_str [CHR 0x0A] ''Some content.\<newline>[[Category:X]]\<newline> '')"
    by code_simp
  have 2: "list_all trailing_line (split_str [CHR 0x0A] '' [[Category:X]] \<newline>\<newline>[[Category:Y]]'')"
    by code_simp
  from flag_flips_at_most_once[of "''Some content.\<newline>[[Category:X]]\<newline> ''"] 1
    flag_flips_at_most_once[of "'' [[Category:X]] \<newline>\<newline>[[Category:Y]]''"] 2
  show ?thesis by blast
qed

end
